theory Spec2Isabelle
  imports Complex_Main
begin

section \<open>JavaScript strings and their primitives\<close>

text \<open>
  A JavaScript string is a sequence of UTF-16 code units, and \<open>length\<close> is its \<open>.length\<close>.
  The dictionary, its index and the queries are modelled over \<open>string\<close> (a list of \<open>char\<close>),
  one \<open>char\<close> per code unit, which covers the strings whose code units lie in the Latin-1
  range 0..255; on these \<open>toLowerCase\<close> acts on each code unit by itself. The primitives
  \<open>startsWith\<close>, \<open>indexOf\<close>, \<open>substring\<close> and \<open>substr\<close> are written for lists of any type of
  code unit, so that the tengwar correction can also be run on code units beyond Latin-1.
  A value that may be \<open>undefined\<close> is an option, with \<open>None\<close> for \<open>undefined\<close>.
\<close>

definition toLowerChar :: "char \<Rightarrow> char" where
  \<comment> \<open>\<open>String.prototype.toLowerCase\<close> on one Latin-1 code unit: A-Z and U+00C0..U+00DE
      (without the multiplication sign U+00D7) move up by 32, all others stay.\<close>
  "toLowerChar c =
     (let n = (of_char c :: nat)
      in if (65 \<le> n \<and> n \<le> 90) \<or> (192 \<le> n \<and> n \<le> 222 \<and> n \<noteq> 215)
         then char_of (n + 32) else c)"

definition toLowerCase :: "string \<Rightarrow> string" where
  "toLowerCase s = map toLowerChar s"

fun startsWith :: "'a list \<Rightarrow> 'a list \<Rightarrow> bool" where
  \<comment> \<open>\<open>word.startsWith(q)\<close>\<close>
  "startsWith w [] = True"
| "startsWith [] (c # q) = False"
| "startsWith (a # w) (c # q) = (a = c \<and> startsWith w q)"

fun indexOf_from :: "'a list \<Rightarrow> 'a list \<Rightarrow> nat \<Rightarrow> int" where
  \<comment> \<open>the scan of \<open>indexOf\<close>: the first position, counted from \<open>i\<close>, where \<open>q\<close> starts\<close>
  "indexOf_from [] q i = (if q = [] then int i else - 1)"
| "indexOf_from (a # w) q i =
     (if startsWith (a # w) q then int i else indexOf_from w q (Suc i))"

definition indexOf :: "'a list \<Rightarrow> 'a list \<Rightarrow> int" where
  \<comment> \<open>\<open>word.indexOf(q)\<close>: the first index where \<open>q\<close> occurs in \<open>word\<close>, or -1\<close>
  "indexOf word q = indexOf_from word q 0"

definition substring :: "'a list \<Rightarrow> int \<Rightarrow> int \<Rightarrow> 'a list" where
  \<comment> \<open>\<open>s.substring(a, b)\<close>: both arguments are clamped to \<open>[0, length]\<close> and swapped when
      \<open>a > b\<close>\<close>
  "substring s a b =
     (let n = int (length s);
          a' = max 0 (min a n);
          b' = max 0 (min b n);
          lo = min a' b';
          hi = max a' b'
      in take (nat (hi - lo)) (drop (nat lo) s))"

definition substring_from :: "'a list \<Rightarrow> int \<Rightarrow> 'a list" where
  \<comment> \<open>\<open>s.substring(a)\<close>: the end defaults to the length\<close>
  "substring_from s a = substring s a (int (length s))"

definition substr :: "'a list \<Rightarrow> int \<Rightarrow> int \<Rightarrow> 'a list" where
  \<comment> \<open>\<open>s.substr(start, len)\<close>: a negative start counts from the end, the length is clamped\<close>
  "substr s start len =
     (let n = int (length s);
          st = (if start < 0 then max 0 (n + start) else min start n);
          l = max 0 (min len (n - st))
      in take (nat l) (drop (nat st) s))"

definition substr_from :: "'a list \<Rightarrow> int \<Rightarrow> 'a list" where
  \<comment> \<open>\<open>s.substr(start)\<close>: up to the end of the string\<close>
  "substr_from s start = substr s start (int (length s))"

fun split_on :: "(char \<Rightarrow> bool) \<Rightarrow> string \<Rightarrow> string \<Rightarrow> string list" where
  \<comment> \<open>\<open>s.split(sep)\<close> for a separator that matches exactly one character: \<open>cur\<close> is the
      piece read so far; the empty string splits into one empty piece\<close>
  "split_on sep cur [] = [cur]"
| "split_on sep cur (c # s) =
     (if sep c then cur # split_on sep [] s else split_on sep (cur @ [c]) s)"

definition split_space :: "string \<Rightarrow> string list" where
  \<comment> \<open>\<open>s.split(" ")\<close>\<close>
  "split_space s = split_on (\<lambda>c. c = CHR '' '') [] s"

definition split_phrases :: "string \<Rightarrow> string list" where
  \<comment> \<open>\<open>s.split(/[,;]/)\<close>\<close>
  "split_phrases s = split_on (\<lambda>c. c = CHR '','' \<or> c = CHR '';'') [] s"

section \<open>Dictionary entries and the scorer\<close>

datatype error = TypeError

text \<open>
  The module \<open>./ascii-folder\<close> is not part of the sources at hand, so the folder is a
  parameter \<open>fld\<close> of every function that calls \<open>asciiFolder.fold\<close>. Its argument may be
  \<open>undefined\<close> (\<open>None\<close>); the result \<open>None\<close> stands for a call
  \<open>asciiFolder.fold(x).toLowerCase()\<close> that faults.
\<close>

type_synonym folder = "string option \<Rightarrow> string option"

record entry =
  entry_v :: "string option"
  entry_index :: "string list"
  entry_language :: "string option"
  entry_pos :: string
  entry_gloss :: "string option"
  entry_stem :: "string option"
  entry_notes :: "string option"
  entry_tengwar :: "string option"
  entry_elements :: "string list"

definition computeWordScore :: "string \<Rightarrow> string \<Rightarrow> rat" where
  "computeWordScore word q =
     (if word = q then 99
      else if startsWith word q then (98 * of_nat (length q)) / of_nat (length word)
      else if indexOf word q \<ge> 0 then (70 * of_nat (length q)) / of_nat (length word)
      else 0)"

definition Math_round :: "rat \<Rightarrow> int" where
  \<comment> \<open>\<open>Math.round\<close>: the nearest integer, a half rounded up\<close>
  "Math_round x = \<lfloor>x + 1 / 2\<rfloor>"

fun computeScore_loop ::
  "folder \<Rightarrow> entry \<Rightarrow> string \<Rightarrow> rat \<Rightarrow> string list \<Rightarrow> error + int" where
  \<comment> \<open>the \<open>for (const word of node.index)\<close> loop of \<open>computeScore\<close>, with the running
      \<open>score\<close> and the words still to visit\<close>
  "computeScore_loop fld node q score [] = Inr (Math_round score)"
| "computeScore_loop fld node q score (word # rest) =
     (let score' = max score (computeWordScore word q)
      in if score' = 99 then
           (case fld (entry_v node) of
              None \<Rightarrow> Inl TypeError
            | Some fv \<Rightarrow>
                if toLowerCase fv = q then Inr 100
                else (case fld (entry_gloss node) of
                        None \<Rightarrow> Inl TypeError
                      | Some fg \<Rightarrow>
                          if toLowerCase fg = q then Inr 100
                          else computeScore_loop fld node q score' rest))
         else computeScore_loop fld node q score' rest)"

definition computeScore :: "folder \<Rightarrow> entry \<Rightarrow> string \<Rightarrow> error + int" where
  "computeScore fld node q = computeScore_loop fld node q 0 (entry_index node)"


section \<open>The query engine\<close>

text \<open>
  \<open>gShortDefinitions\<close> is a \<open>Map\<close> whose keys are the values of \<open>entry.v\<close>, which may be
  \<open>undefined\<close>; its values are always strings.
\<close>

type_synonym gloss_table = "string option \<rightharpoonup> string"

record result =
  result_v :: "string option"
  result_index :: "string list"
  result_language :: "string option"
  result_pos :: string
  result_gloss :: "string option"
  result_stem :: "string option"
  result_notes :: "string option"
  result_tengwar :: "string option"
  result_score :: int
  result_elements :: "(string \<times> string) list"

definition make_result :: "gloss_table \<Rightarrow> string \<Rightarrow> entry \<Rightarrow> int \<Rightarrow> result" where
  \<comment> \<open>the object pushed by \<open>matchQuery\<close>: the spread of \<open>entry\<close>, then \<open>score\<close>, then
      \<open>elements\<close> mapped to the pairs \<open>{v, gloss}\<close>\<close>
  "make_result tbl q e score =
     \<lparr>result_v = entry_v e,
      result_index = entry_index e,
      result_language = entry_language e,
      result_pos = entry_pos e,
      result_gloss = entry_gloss e,
      result_stem = entry_stem e,
      result_notes = entry_notes e,
      result_tengwar = entry_tengwar e,
      result_score = score,
      result_elements =
        map (\<lambda>v. (v, case tbl (Some q) of None \<Rightarrow> [] | Some g \<Rightarrow> g)) (entry_elements e)\<rparr>"

fun matchQuery_loop ::
  "folder \<Rightarrow> gloss_table \<Rightarrow> string \<Rightarrow> entry list \<Rightarrow> result list \<Rightarrow> error + result list" where
  "matchQuery_loop fld tbl q [] res = Inr res"
| "matchQuery_loop fld tbl q (e # rest) res =
     (case computeScore fld e q of
        Inl err \<Rightarrow> Inl err
      | Inr score \<Rightarrow>
          if score > 0 then matchQuery_loop fld tbl q rest (res @ [make_result tbl q e score])
          else matchQuery_loop fld tbl q rest res)"

definition matchQuery ::
  "folder \<Rightarrow> entry list option \<Rightarrow> gloss_table \<Rightarrow> string \<Rightarrow> error + result list" where
  \<comment> \<open>\<open>gEldamoDictionary\<close> is \<open>None\<close> when \<open>loadDictionary\<close> returned \<open>undefined\<close>; iterating
      over \<open>undefined\<close> with \<open>for ... of\<close> throws a TypeError\<close>
  "matchQuery fld gEldamoDictionary tbl q =
     (case gEldamoDictionary of
        None \<Rightarrow> Inl TypeError
      | Some entries \<Rightarrow> matchQuery_loop fld tbl q entries [])"

section \<open>The ring buffer\<close>

type_synonym slot = "(string \<times> string) option"

record ring_state =
  gRing :: "slot list"
  gRingIndex :: nat

definition RING_SIZE :: nat where
  "RING_SIZE = 40"

definition init_ring :: ring_state where
  "init_ring = \<lparr>gRing = replicate RING_SIZE None, gRingIndex = 0\<rparr>"

definition array_set :: "slot list \<Rightarrow> nat \<Rightarrow> slot \<Rightarrow> slot list" where
  \<comment> \<open>\<open>a[i] = x\<close>: a write past the end extends the array with empty slots\<close>
  "array_set a i x =
     (if i < length a then a[i := x] else a @ replicate (i - length a) None @ [x])"

definition splice_remove :: "slot list \<Rightarrow> nat \<Rightarrow> slot list" where
  \<comment> \<open>\<open>a.splice(i, 1)\<close>\<close>
  "splice_remove a i = take i a @ drop (Suc i) a"

definition splice_insert :: "slot list \<Rightarrow> nat \<Rightarrow> slot \<Rightarrow> slot list" where
  \<comment> \<open>\<open>a.splice(i, 0, x)\<close>\<close>
  "splice_insert a i x = take i a @ [x] @ drop i a"

definition truthy :: "string option \<Rightarrow> bool" where
  \<comment> \<open>the truth value of \<open>result\<close>: \<open>undefined\<close> and the empty string are falsy\<close>
  "truthy r = (case r of None \<Rightarrow> False | Some s \<Rightarrow> s \<noteq> [])"

definition addToRing :: "string \<Rightarrow> string \<Rightarrow> ring_state \<Rightarrow> ring_state" where
  "addToRing k v st =
     \<lparr>gRing = array_set (gRing st) (gRingIndex st) (Some (k, v)),
      gRingIndex = (gRingIndex st + 1) mod RING_SIZE\<rparr>"

definition promote :: "nat \<Rightarrow> ring_state \<Rightarrow> ring_state" where
  \<comment> \<open>what \<open>getFromRing\<close> does to the ring when slot \<open>i\<close> holds the key\<close>
  "promote i st =
     (if gRingIndex st \<noteq> i then
        (let r1 = array_set (gRing st) (gRingIndex st) (gRing st ! i);
             r2 = splice_remove r1 i;
             idx = (if i > gRingIndex st then (gRingIndex st + 1) mod length r2
                    else gRingIndex st);
             r3 = splice_insert r2 idx None
         in \<lparr>gRing = r3, gRingIndex = idx\<rparr>)
      else st\<lparr>gRingIndex := (gRingIndex st + 1) mod length (gRing st)\<rparr>)"

function getFromRing_loop ::
  "string \<Rightarrow> nat \<Rightarrow> string option \<Rightarrow> ring_state \<Rightarrow> string option \<times> ring_state" where
  "getFromRing_loop k i res st =
     (if \<not> truthy res \<and> i < length (gRing st) then
        (case gRing st ! i of
           None \<Rightarrow> getFromRing_loop k (Suc i) res st
         | Some (key, val) \<Rightarrow>
             if key = k then getFromRing_loop k (Suc i) (Some val) (promote i st)
             else getFromRing_loop k (Suc i) res st)
      else (res, st))"
  by pat_completeness auto
termination
proof -
  have m: "max (length (gRing (promote i st))) (Suc (gRingIndex (promote i st)))
        = max (length (gRing st)) (Suc (gRingIndex st))"
    if a: "i < length (gRing st)" for i st
    \<comment> \<open>a hit keeps the larger of the array length and the cursor's successor, which
        bounds the scan\<close>
  proof (cases "gRingIndex st = i")
    case True
    from a have "0 < length (gRing st)" by auto
    then have "Suc i mod length (gRing st) < length (gRing st)" by (rule mod_less_divisor)
    then have "Suc (Suc i mod length (gRing st)) \<le> length (gRing st)" by simp
    moreover from a have "Suc i \<le> length (gRing st)" by simp
    ultimately show ?thesis using True by (simp add: promote_def max_absorb1)
  next
    case False
    define c where "c = gRingIndex st"
    define r1 where "r1 = array_set (gRing st) c (gRing st ! i)"
    define r2 where "r2 = splice_remove r1 i"
    define idx where "idx = (if i > c then (c + 1) mod length r2 else c)"
    define r3 where "r3 = splice_insert r2 idx None"
    have p: "promote i st = \<lparr>gRing = r3, gRingIndex = idx\<rparr>"
      using False by (simp add: promote_def Let_def r3_def idx_def r2_def r1_def c_def)
    have l1: "length r1 = max (length (gRing st)) (Suc c)"
      by (auto simp: r1_def array_set_def)
    have l2: "Suc (length r2) = length r1"
      using a l1 by (auto simp: r2_def splice_remove_def)
    have l3: "length r3 = Suc (length r2)"
      by (simp add: r3_def splice_insert_def)
    have "Suc idx \<le> length r3"
    proof (cases "i > c")
      case True
      with a l1 l2 have "0 < length r2" by auto
      then have "(c + 1) mod length r2 < length r2" by (rule mod_less_divisor)
      with True l3 show ?thesis by (simp add: idx_def)
    next
      case False
      then have "idx = c" by (simp add: idx_def)
      with l1 l2 l3 show ?thesis by simp
    qed
    with l1 l2 l3 show ?thesis by (simp add: p c_def max_absorb1)
  qed
  show ?thesis
    by (relation "measure (\<lambda>(k, i, res, st). max (length (gRing st)) (Suc (gRingIndex st)) - i)")
      (auto simp: m)
qed

declare getFromRing_loop.simps [simp del]

definition getFromRing :: "string \<Rightarrow> ring_state \<Rightarrow> string option \<times> ring_state" where
  "getFromRing k st = getFromRing_loop k 0 None st"

section \<open>The raw lexicon tree\<close>

text \<open>
  An element of the XML document as \<open>xmldoc\<close> presents it: its tag name, its attributes (a
  dictionary from attribute names to strings), its text value and its child elements in
  document order.
\<close>

datatype xml_node =
  XmlElement (node_name: string) (node_attr: "string \<rightharpoonup> string") (node_val: string)
    (node_children: "xml_node list")

section \<open>The indexer\<close>

definition STOP_WORDS :: "string list" where
  "STOP_WORDS =
     [''?'', ''[]'', ''[='', ''&'', ''='', ''-'', ''*-'', ''/'', ''>>}'', ''a'', ''b'', ''c.'',
      ''am'', ''an'', ''as'', ''at'', ''be'', ''by'', ''do'', ''f.'', ''go'', ''he'', ''i'',
      ''if'', ''in'', ''it'', ''is'', ''m.'', ''me'', ''my'', ''n.'', ''no'', ''o'', ''of'',
      ''on'', ''or'', ''q.'', ''sg'', ''so'', ''t.'', ''to'', ''the'', ''up'', ''us'', ''we'',
      ''(lit.'', ''lit.'', ''...'']"

definition leading_marker :: "char \<Rightarrow> bool" where
  \<comment> \<open>the character class of the test on \<open>firstChar\<close>: star, question mark, opening
      parenthesis, brace or bracket\<close>
  "leading_marker c = (c \<in> set ''*?({['')"

definition trailing_marker :: "char \<Rightarrow> bool" where
  \<comment> \<open>the character class of the test on \<open>lastChar\<close>: closing bracket or parenthesis\<close>
  "trailing_marker c = (c \<in> set ''])'')"

definition has_digit :: "string \<Rightarrow> bool" where
  \<comment> \<open>\<open>/[0-9]+/.test(word)\<close>: some character of the word is a decimal digit\<close>
  "has_digit w = list_ex (\<lambda>c. c \<in> set ''0123456789'') w"

definition index_word :: "string \<Rightarrow> string list" where
  \<comment> \<open>the body of the inner loop of \<open>computeIndex\<close> for one piece \<open>word\<close> of a phrase: the
      words it pushes. On an empty word \<open>lastChar\<close> is \<open>undefined\<close> and the test fails.\<close>
  "index_word word =
     (if word \<noteq> [] then
        (let word1 = (if leading_marker (hd word) then substring_from word 1 else word);
             word2 = (if word1 \<noteq> [] \<and> trailing_marker (last word1)
                      then substring word1 0 (- 1) else word1)
         in if word2 \<noteq> [] \<and> \<not> has_digit word2 \<and> word2 \<notin> set STOP_WORDS
            then [word2] else [])
      else [])"

definition gloss_source :: "xml_node \<Rightarrow> string" where
  \<comment> \<open>\<open>node.attr.ngloss ?? node.attr.gloss ?? ""\<close>\<close>
  "gloss_source node =
     (case node_attr node ''ngloss'' of
        Some g \<Rightarrow> g
      | None \<Rightarrow> (case node_attr node ''gloss'' of Some g \<Rightarrow> g | None \<Rightarrow> []))"

definition computeIndex :: "folder \<Rightarrow> xml_node \<Rightarrow> error + string list" where
  "computeIndex fld node =
     (case fld (node_attr node ''v'') of
        None \<Rightarrow> Inl TypeError
      | Some fv \<Rightarrow>
          (case fld (Some (gloss_source node)) of
             None \<Rightarrow> Inl TypeError
           | Some fg \<Rightarrow>
               Inr (filter (\<lambda>word. word \<noteq> []) (split_space (toLowerCase fv))
                    @ concat (map (\<lambda>phrase. concat (map index_word (split_space phrase)))
                                  (split_phrases (toLowerCase fg))))))"

section \<open>Tengwar spelling correction\<close>

definition n_tilde :: char where "n_tilde = CHR 0xF1"
definition N_tilde :: char where "N_tilde = CHR 0xD1"
definition thorn :: char where "thorn = CHR 0xFE"
definition Thorn :: char where "Thorn = CHR 0xDE"

definition correctTengwar_on ::
  "(char \<Rightarrow> 'c) \<Rightarrow> ('c list \<Rightarrow> 'c list) \<Rightarrow> 'c list option \<Rightarrow> 'c list option
     \<Rightarrow> 'c list option" where
  \<comment> \<open>the body of \<open>correctTengwar\<close> on the two attributes it reads, \<open>node.attr.v\<close> and
      \<open>node.attr.tengwar\<close>, over any type of code unit: \<open>u\<close> gives the code unit of a
      Latin-1 character and \<open>lower\<close> is \<open>toLowerCase\<close>. \<open>!v\<close> holds for \<open>undefined\<close> and
      for the empty string, and so for \<open>tengwar\<close>. The index is found in \<open>v.toLowerCase()\<close>
      and used in \<open>v\<close>; \<open>v[index]\<close> past the end is \<open>undefined\<close>.\<close>
  "correctTengwar_on u lower attr_v attr_tengwar =
     (case attr_v of
        None \<Rightarrow> None
      | Some v \<Rightarrow>
          (case attr_tengwar of
             None \<Rightarrow> Some v
           | Some tengwar \<Rightarrow>
               if v = [] \<or> tengwar = [] then Some v
               else if tengwar = map u [n_tilde] \<or> tengwar = map u [n_tilde, CHR ''-''] then
                 (if hd v = u CHR ''n'' then Some ([u n_tilde] @ substring_from v 1)
                  else if hd v = u CHR ''N'' then Some ([u N_tilde] @ substring_from v 1)
                  else Some v)
               else if tengwar = map u [thorn] \<or> tengwar = map u [thorn, CHR ''-''] then
                 (let index = indexOf (lower v) [u CHR ''s'']
                  in if index \<ge> 0 then
                       Some (substr v 0 index
                             @ [if nat index < length v \<and> v ! nat index = u CHR ''S''
                                then u Thorn else u thorn]
                             @ substr_from v (index + 1))
                     else Some v)
               else if tengwar = map u ([n_tilde] @ ''or'' @ [thorn] @ ''us'')
                 then Some (map u ([N_tilde] @ ''or'' @ [thorn] @ ''us''))
               else Some v))"

definition correctTengwar :: "xml_node \<Rightarrow> string option" where
  \<comment> \<open>\<open>correctTengwar(node)\<close> for a node whose attributes are Latin-1 strings\<close>
  "correctTengwar node =
     correctTengwar_on id toLowerCase (node_attr node ''v'') (node_attr node ''tengwar'')"

definition lower_unit :: "nat \<Rightarrow> nat list" where
  \<comment> \<open>\<open>toLowerCase\<close> on one UTF-16 code unit, for the Latin-1 code units and for U+0130
      (capital I with dot above, code unit 304), which becomes \<open>i\<close> followed by the combining
      dot U+0307 (code units 105 and 775). Other code units are passed on as they are.\<close>
  "lower_unit n =
     (if (65 \<le> n \<and> n \<le> 90) \<or> (192 \<le> n \<and> n \<le> 222 \<and> n \<noteq> 215) then [n + 32]
      else if n = 304 then [105, 775]
      else [n])"

definition toLowerCase_units :: "nat list \<Rightarrow> nat list" where
  \<comment> \<open>\<open>v.toLowerCase()\<close> on a string given by its code units: the result can be longer\<close>
  "toLowerCase_units s = concat (map lower_unit s)"

definition correctTengwar_units :: "nat list option \<Rightarrow> nat list option \<Rightarrow> nat list option" where
  \<comment> \<open>\<open>correctTengwar\<close> on attributes given by their UTF-16 code units\<close>
  "correctTengwar_units attr_v attr_tengwar =
     correctTengwar_on of_char toLowerCase_units attr_v attr_tengwar"

section \<open>The dictionary compiler\<close>

definition excluded_pos :: "string list" where
  "excluded_pos =
     [''suf'', ''pref'', ''phoneme'', ''phonetics'', ''phonetic-rule'', ''phonetic-group'',
      ''grammar'']"

definition element_headwords :: "xml_node list \<Rightarrow> string list" where
  \<comment> \<open>\<open>node.childrenNamed("element").map((x) => x.attr.v).filter((x) => x !== undefined)\<close>\<close>
  "element_headwords cs =
     concat (map (\<lambda>x. case node_attr x ''v'' of None \<Rightarrow> [] | Some v \<Rightarrow> [v])
                 (filter (\<lambda>x. node_name x = ''element'') cs))"

definition notes_of :: "xml_node list \<Rightarrow> string option" where
  \<comment> \<open>\<open>node.childNamed("notes")\<close> is the first child of that name; then \<open>notes.val\<close>\<close>
  "notes_of cs = map_option node_val (find (\<lambda>x. node_name x = ''notes'') cs)"

definition word_entry :: "folder \<Rightarrow> xml_node \<Rightarrow> error + entry list" where
  \<comment> \<open>the entries a node contributes by itself: one for a \<open>word\<close> whose part of speech is
      not excluded, none otherwise\<close>
  "word_entry fld node =
     (if node_name node = ''word'' then
        (let pos = (case node_attr node ''speech'' of None \<Rightarrow> [] | Some p \<Rightarrow> p)
         in if pos \<notin> set excluded_pos then
              (case computeIndex fld node of
                 Inl err \<Rightarrow> Inl err
               | Inr idx \<Rightarrow>
                   Inr [\<lparr>entry_v = correctTengwar node,
                         entry_index = idx,
                         entry_language = node_attr node ''l'',
                         entry_pos = pos,
                         entry_gloss = (case node_attr node ''ngloss'' of
                                          Some g \<Rightarrow> Some g
                                        | None \<Rightarrow> node_attr node ''gloss''),
                         entry_stem = node_attr node ''stem'',
                         entry_notes = notes_of (node_children node),
                         entry_tengwar = node_attr node ''tengwar'',
                         entry_elements = element_headwords (node_children node)\<rparr>])
            else Inr [])
      else Inr [])"

fun collect :: "(error + entry list) list \<Rightarrow> error + entry list" where
  \<comment> \<open>the results of the children in order: the first fault aborts the traversal\<close>
  "collect [] = Inr []"
| "collect (Inl err # rs) = Inl err"
| "collect (Inr es # rs) = (case collect rs of Inl err \<Rightarrow> Inl err | Inr es' \<Rightarrow> Inr (es @ es'))"

fun compileDictionaryRecursive :: "folder \<Rightarrow> xml_node \<Rightarrow> error + entry list" where
  "compileDictionaryRecursive fld (XmlElement name attr val cs) =
     (case word_entry fld (XmlElement name attr val cs) of
        Inl err \<Rightarrow> Inl err
      | Inr res \<Rightarrow>
          (case collect (map (compileDictionaryRecursive fld) cs) of
             Inl err \<Rightarrow> Inl err
           | Inr es \<Rightarrow> Inr (res @ es)))"

definition add_definition :: "gloss_table \<Rightarrow> entry \<Rightarrow> gloss_table" where
  \<comment> \<open>the body of the loop of \<open>compileDictionary\<close> for one entry\<close>
  "add_definition tbl e =
     (case entry_gloss e of
        None \<Rightarrow> tbl
      | Some g \<Rightarrow>
          if g \<noteq> [] \<and> g \<noteq> ''[unglossed]'' then
            (case tbl (entry_v e) of
               None \<Rightarrow> tbl(entry_v e \<mapsto> g)
             | Some def \<Rightarrow> if def \<noteq> g then tbl(entry_v e \<mapsto> def @ '' / '' @ g) else tbl)
          else tbl)"

definition compileDictionary ::
  "folder \<Rightarrow> xml_node \<Rightarrow> gloss_table \<Rightarrow> error + (entry list \<times> gloss_table)" where
  \<comment> \<open>the table \<open>gShortDefinitions\<close> is global: it is passed in and returned updated\<close>
  "compileDictionary fld eldamoRoot gShortDefinitions =
     (case compileDictionaryRecursive fld eldamoRoot of
        Inl err \<Rightarrow> Inl err
      | Inr res \<Rightarrow> Inr (res, foldl add_definition gShortDefinitions res))"

definition loadDictionary ::
  "folder \<Rightarrow> entry list option \<Rightarrow> xml_node option \<Rightarrow> gloss_table
     \<Rightarrow> entry list option \<times> gloss_table" where
  \<comment> \<open>\<open>json\<close> is what reading and parsing \<open>eldamo-data.json\<close> gives and \<open>xml\<close> what reading
      and parsing \<open>eldamo-data.xml\<close> gives, \<open>None\<close> when that throws. The outer \<open>catch\<close>
      leaves \<open>result\<close> \<open>undefined\<close>.\<close>
  "loadDictionary fld json xml gShortDefinitions =
     (case json of
        Some res \<Rightarrow> (Some res, gShortDefinitions)
      | None \<Rightarrow>
          (case xml of
             None \<Rightarrow> (None, gShortDefinitions)
           | Some doc \<Rightarrow>
               (case compileDictionary fld doc gShortDefinitions of
                  Inl err \<Rightarrow> (None, gShortDefinitions)
                | Inr (res, tbl) \<Rightarrow> (Some res, tbl))))"

section \<open>Notions used in the statements, and concrete inputs\<close>

definition exact_outcome :: "folder \<Rightarrow> entry \<Rightarrow> string \<Rightarrow> error + int" where
  \<comment> \<open>what the block under \<open>score === 99\<close> decides, with 99 when neither comparison holds\<close>
  "exact_outcome fld e q =
     (case fld (entry_v e) of
        None \<Rightarrow> Inl TypeError
      | Some fv \<Rightarrow>
          if toLowerCase fv = q then Inr 100
          else (case fld (entry_gloss e) of
                  None \<Rightarrow> Inl TypeError
                | Some fg \<Rightarrow> if toLowerCase fg = q then Inr 100 else Inr 99))"

definition aragorn_entry :: entry where
  "aragorn_entry =
     \<lparr>entry_v = Some ''Aragorn'', entry_index = [''aragorn''], entry_language = Some ''s'',
      entry_pos = ''n'', entry_gloss = None, entry_stem = None, entry_notes = None,
      entry_tengwar = None, entry_elements = []\<rparr>"

definition elessar_entry :: entry where
  "elessar_entry =
     \<lparr>entry_v = Some ''Aragorn Elessar'', entry_index = [''aragorn'', ''elessar'', ''king''],
      entry_language = Some ''s'', entry_pos = ''n'', entry_gloss = Some ''king'',
      entry_stem = None, entry_notes = None, entry_tengwar = None,
      entry_elements = [''ara'']\<rparr>"

definition estel_node :: xml_node where
  "estel_node =
     XmlElement ''word''
       [''v'' \<mapsto> ''estel'', ''l'' \<mapsto> ''s'', ''speech'' \<mapsto> ''n'',
        ''gloss'' \<mapsto> ''hope (lit.) trust)'']
       [] []"

definition small_doc :: xml_node where
  "small_doc = XmlElement ''eldamo'' Map.empty [] [estel_node]"

definition estel_entry :: entry where
  "estel_entry =
     \<lparr>entry_v = Some ''estel'', entry_index = [''estel'', ''hope''], entry_language = Some ''s'',
      entry_pos = ''n'', entry_gloss = Some ''hope (lit.) trust)'', entry_stem = None,
      entry_notes = None, entry_tengwar = None, entry_elements = []\<rparr>"

definition element_table :: gloss_table where
  "element_table = [Some ''ara'' \<mapsto> ''noble'', Some ''aragorn'' \<mapsto> ''king'']"

definition sibilant :: "char \<Rightarrow> bool" where
  \<comment> \<open>the letters that \<open>v.toLowerCase().indexOf("s")\<close> finds\<close>
  "sibilant c = (c = CHR ''s'' \<or> c = CHR ''S'')"

definition norwthus_hint :: string where
  "norwthus_hint = [n_tilde] @ ''or'' @ [thorn] @ ''us''"

definition Norwthus :: string where
  "Norwthus = [N_tilde] @ ''or'' @ [thorn] @ ''us''"

definition ring_inv :: "ring_state \<Rightarrow> bool" where
  \<comment> \<open>the array has \<open>RING_SIZE\<close> slots and the cursor points at one of them\<close>
  "ring_inv st \<longleftrightarrow> length (gRing st) = RING_SIZE \<and> gRingIndex st < RING_SIZE"

definition two_keys_ring :: ring_state where
  "two_keys_ring = addToRing ''nolofinwe'' ''[2]'' (addToRing ''aragorn'' ''[1]'' init_ring)"

definition glossed :: "entry \<Rightarrow> bool" where
  \<comment> \<open>the test \<open>entry.gloss && entry.gloss !== "[unglossed]"\<close>\<close>
  "glossed e = (case entry_gloss e of None \<Rightarrow> False | Some g \<Rightarrow> g \<noteq> [] \<and> g \<noteq> ''[unglossed]'')"

definition single_gloss :: "entry list \<Rightarrow> bool" where
  \<comment> \<open>no headword has two glossed entries with different glosses\<close>
  "single_gloss es \<longleftrightarrow>
     (\<forall>e1\<in>set es. \<forall>e2\<in>set es.
        glossed e1 \<and> glossed e2 \<and> entry_v e1 = entry_v e2 \<longrightarrow> entry_gloss e1 = entry_gloss e2)"

definition table_of :: "error + (entry list \<times> gloss_table) \<Rightarrow> gloss_table" where
  \<comment> \<open>the table \<open>gShortDefinitions\<close> after a run of \<open>compileDictionary\<close>\<close>
  "table_of r = (case r of Inl err \<Rightarrow> Map.empty | Inr (es, tbl) \<Rightarrow> tbl)"

definition homonym_doc :: xml_node where
  "homonym_doc =
     XmlElement ''eldamo'' Map.empty []
       [XmlElement ''word'' [''v'' \<mapsto> ''sir'', ''gloss'' \<mapsto> ''river''] [] [],
        XmlElement ''word'' [''v'' \<mapsto> ''sir'', ''gloss'' \<mapsto> ''today''] [] []]"

fun occupied :: "slot list \<Rightarrow> (string \<times> string) list" where
  \<comment> \<open>the key/value pairs of the occupied slots, in order\<close>
  "occupied [] = []"
| "occupied (None # xs) = occupied xs"
| "occupied (Some e # xs) = e # occupied xs"

definition recency_order :: "ring_state \<Rightarrow> (string \<times> string) list" where
  \<comment> \<open>the occupied slots read circularly from the cursor: the next slot to be overwritten
      comes first\<close>
  "recency_order st =
     occupied (drop (gRingIndex st) (gRing st) @ take (gRingIndex st) (gRing st))"

definition holds_key :: "string \<Rightarrow> slot \<Rightarrow> bool" where
  \<comment> \<open>the test \<open>gRing[i] && gRing[i].key === k\<close>\<close>
  "holds_key k s = (case s of None \<Rightarrow> False | Some (key, val) \<Rightarrow> key = k)"

text \<open>
  The cache as the specification words it, for comparison with the ring: an LRU cache of
  fixed capacity \<open>n\<close>, kept as the list of its entries with the least recently used first.
  A \<open>put\<close> evicts the least recently used entry only when the cache is full; a \<open>get\<close> hit
  makes the entry the most recently used and evicts nothing.
\<close>

definition lru_put ::
  "nat \<Rightarrow> string \<Rightarrow> string \<Rightarrow> (string \<times> string) list \<Rightarrow> (string \<times> string) list" where
  "lru_put n k v c =
     (let c' = filter (\<lambda>e. fst e \<noteq> k) c
      in (if n \<le> length c' then tl c' else c') @ [(k, v)])"

definition lru_get ::
  "string \<Rightarrow> (string \<times> string) list \<Rightarrow> string option \<times> (string \<times> string) list" where
  "lru_get k c =
     (case map_of c k of
        None \<Rightarrow> (None, c)
      | Some v \<Rightarrow> (Some v, filter (\<lambda>e. fst e \<noteq> k) c @ [(k, v)]))"

definition ring_key :: "nat \<Rightarrow> string" where
  \<comment> \<open>pairwise distinct query strings for the concrete runs\<close>
  "ring_key n = replicate (Suc n) CHR ''a''"

definition full_ring :: ring_state where
  "full_ring = foldl (\<lambda>st n. addToRing (ring_key n) ''[]'' st) init_ring [0..<40]"

definition full_lru :: "(string \<times> string) list" where
  "full_lru = foldl (\<lambda>c n. lru_put RING_SIZE (ring_key n) ''[]'' c) [] [0..<40]"

definition ring_ok :: "ring_state \<Rightarrow> bool" where
  \<comment> \<open>the states in which the request handler keeps the ring: 40 slots, the cursor in range,
      no key in two slots, and no empty cached value\<close>
  "ring_ok st \<longleftrightarrow>
     ring_inv st \<and> distinct (map fst (recency_order st))
     \<and> list_all (\<lambda>e. snd e \<noteq> []) (recency_order st)"

definition define_request ::
  "string \<Rightarrow> string option \<Rightarrow> ring_state \<Rightarrow> string option \<times> ring_state" where
  \<comment> \<open>the handler of \<open>/define/:word\<close> on the ring: \<open>fresh\<close> is
      \<open>JSON.stringify(matchQuery(q))\<close>, \<open>None\<close> when \<open>matchQuery\<close> faults, and then
      \<open>addToRing\<close> is not reached. The result is the response \<open>r\<close> and the ring.\<close>
  "define_request q fresh st =
     (case getFromRing q st of
        (r, st1) \<Rightarrow>
          if truthy r then (r, st1)
          else (case fresh of
                  None \<Rightarrow> (None, st1)
                | Some r' \<Rightarrow> (Some r', addToRing q r' st1)))"

fun define_requests :: "(string \<times> string option) list \<Rightarrow> ring_state \<Rightarrow> ring_state" where
  \<comment> \<open>the ring after a sequence of requests\<close>
  "define_requests [] st = st"
| "define_requests ((q, fresh) # qs) st = define_requests qs (snd (define_request q fresh st))"

definition evicted_first :: "string \<Rightarrow> string \<Rightarrow> (string \<times> string) list \<Rightarrow> bool" where
  \<comment> \<open>whenever the key \<open>b\<close> is in the list, the key \<open>a\<close> is too and stands after it: \<open>b\<close> is
      nearer to eviction than \<open>a\<close>\<close>
  "evicted_first b a xs \<longleftrightarrow>
     (b \<in> fst ` set xs \<longrightarrow>
        (\<exists>ys zs. xs = ys @ zs \<and> b \<in> fst ` set ys \<and> a \<in> fst ` set zs))"

definition rotation :: "ring_state \<Rightarrow> slot list" where
  \<comment> \<open>all slots read circularly from the cursor\<close>
  "rotation st = drop (gRingIndex st) (gRing st) @ take (gRingIndex st) (gRing st)"

fun addAllToRing :: "(string \<times> string) list \<Rightarrow> ring_state \<Rightarrow> ring_state" where
  \<comment> \<open>successive calls of \<open>addToRing\<close>\<close>
  "addAllToRing [] st = st"
| "addAllToRing ((k, v) # kvs) st = addAllToRing kvs (addToRing k v st)"

definition forty_more :: "(string \<times> string) list" where
  "forty_more = map (\<lambda>n. (ring_key n, ''[]'')) [40..<80]"

definition later_requests :: "(string \<times> string option) list" where
  "later_requests = [(ring_key 40, Some ''[]''), (ring_key 41, Some ''[]'')]"

section \<open>Properties of the scorer\<close>

lemma startsWith_length: "startsWith w q \<Longrightarrow> length q \<le> length w"
  by (induction w q rule: startsWith.induct) auto

lemma startsWith_same_length: "startsWith w q \<Longrightarrow> length q = length w \<Longrightarrow> w = q"
  by (induction w q rule: startsWith.induct) auto

lemma startsWith_shorter: "startsWith w q \<Longrightarrow> w \<noteq> q \<Longrightarrow> length q < length w"
  using startsWith_length [of w q] startsWith_same_length [of w q] by (cases "length q = length w") auto

lemma indexOf_from_length: "0 \<le> indexOf_from w q i \<Longrightarrow> length q \<le> length w"
proof (induction w arbitrary: i)
  case Nil
  then show ?case by (auto split: if_splits)
next
  case (Cons a w)
  show ?case
  proof (cases "startsWith (a # w) q")
    case True
    then show ?thesis by (rule startsWith_length)
  next
    case False
    with Cons.prems have "0 \<le> indexOf_from w q (Suc i)" by simp
    then have "length q \<le> length w" by (rule Cons.IH)
    then show ?thesis by simp
  qed
qed

lemma computeWordScore_nonneg: "0 \<le> computeWordScore w q"
  by (simp add: computeWordScore_def)

lemma computeWordScore_le_98:
  assumes "w \<noteq> q"
  shows "computeWordScore w q \<le> 98"
proof -
  have pre: "98 * of_nat (length q) / of_nat (length w) \<le> (98::rat)" if "startsWith w q"
  proof -
    from that assms have "length q < length w" by (rule startsWith_shorter)
    then have "(of_nat (length q) :: rat) \<le> of_nat (length w)" "(0::rat) < of_nat (length w)" by auto
    then show ?thesis by (simp add: pos_divide_le_eq)
  qed
  have inf: "70 * of_nat (length q) / of_nat (length w) \<le> (98::rat)" if "0 \<le> indexOf w q" "w \<noteq> []"
  proof -
    from that have "length q \<le> length w" unfolding indexOf_def by (intro indexOf_from_length)
    then have "(of_nat (length q) :: rat) \<le> of_nat (length w)" by simp
    moreover from that have "(0::rat) < of_nat (length w)" by simp
    ultimately show ?thesis by (simp add: pos_divide_le_eq)
  qed
  show ?thesis using assms pre inf by (cases "w = []") (auto simp: computeWordScore_def)
qed

lemma Math_round_le_98: "0 \<le> s \<Longrightarrow> s \<le> 98 \<Longrightarrow> 0 \<le> Math_round s \<and> Math_round s \<le> 98"
  unfolding Math_round_def by (simp add: floor_le_iff le_floor_iff) 

lemma Math_round_99: "Math_round 99 = 99"
  unfolding Math_round_def by (simp add: floor_eq_iff)

lemma computeScore_loop_no_match:
  "q \<notin> set ws \<Longrightarrow> 0 \<le> s \<Longrightarrow> s \<le> 98 \<Longrightarrow>
   \<exists>n. computeScore_loop fld e q s ws = Inr n \<and> 0 \<le> n \<and> n \<le> 98"
proof (induction ws arbitrary: s)
  case Nil
  then show ?case using Math_round_le_98 [of s] by simp
next
  case (Cons w ws)
  from Cons.prems have "w \<noteq> q" by auto
  then have "computeWordScore w q \<le> 98" by (rule computeWordScore_le_98)
  with Cons.prems have m: "0 \<le> max s (computeWordScore w q)" "max s (computeWordScore w q) \<le> 98"
    by (auto simp: max_def)
  then have ne: "max s (computeWordScore w q) \<noteq> 99" by linarith
  from Cons.prems have "q \<notin> set ws" by simp
  from Cons.IH [OF this m] ne show ?case by (simp add: Let_def)
qed

lemma computeWordScore_le_99: "computeWordScore w q \<le> 99"
  using computeWordScore_le_98 [of w q] by (cases "w = q") (auto simp: computeWordScore_def)

lemma computeScore_loop_99:
  "computeScore_loop fld e q 99 ws = (if ws = [] then Inr 99 else exact_outcome fld e q)"
proof (induction ws)
  case Nil
  show ?case by (simp add: Math_round_99)
next
  case (Cons w ws)
  have "max 99 (computeWordScore w q) = 99"
    using computeWordScore_le_99 [of w q] by (simp add: max_def)
  with Cons.IH show ?case
    by (simp add: Let_def exact_outcome_def split: option.splits)
qed

lemma computeScore_loop_match:
  "q \<in> set ws \<Longrightarrow> 0 \<le> s \<Longrightarrow> s \<le> 98 \<Longrightarrow>
   computeScore_loop fld e q s ws = exact_outcome fld e q"
proof (induction ws arbitrary: s)
  case Nil
  then show ?case by simp
next
  case (Cons w ws)
  show ?case
  proof (cases "w = q")
    case True
    with Cons.prems have "max s (computeWordScore w q) = 99"
      by (simp add: computeWordScore_def max_def)
    then show ?thesis
      by (simp add: Let_def computeScore_loop_99 exact_outcome_def split: option.splits)
  next
    case False
    then have "computeWordScore w q \<le> 98" by (rule computeWordScore_le_98)
    with Cons.prems have m: "0 \<le> max s (computeWordScore w q)" "max s (computeWordScore w q) \<le> 98"
      by (auto simp: max_def)
    then have ne: "max s (computeWordScore w q) \<noteq> 99" by linarith
    from Cons.prems False have "q \<in> set ws" by simp
    from Cons.IH [OF this m] ne show ?thesis by (simp add: Let_def)
  qed
qed

text \<open>
  C1 (as amended). \<open>computeScore\<close> returns 100 exactly when some token of the entry equals the
  query \<open>q\<close> and, in addition, the folded and lower-cased headword or gloss of the entry
  equals \<open>q\<close>. A token equal to \<open>q\<close> in an entry whose folded headword and gloss both
  differ from \<open>q\<close> scores 99. When no token equals \<open>q\<close> the score is at most 98, so
  strictly less than 100.
\<close>

theorem computeScore_exact_match:
  "(computeScore fld e q = Inr 100 \<longleftrightarrow>
      q \<in> set (entry_index e) \<and>
      (\<exists>fv. fld (entry_v e) = Some fv \<and>
         (toLowerCase fv = q \<or> (\<exists>fg. fld (entry_gloss e) = Some fg \<and> toLowerCase fg = q))))
   \<and> (q \<in> set (entry_index e) \<and> fld (entry_v e) = Some fv \<and> toLowerCase fv \<noteq> q
        \<and> fld (entry_gloss e) = Some fg \<and> toLowerCase fg \<noteq> q
        \<longrightarrow> computeScore fld e q = Inr 99)
   \<and> (q \<notin> set (entry_index e) \<longrightarrow>
        (\<exists>n. computeScore fld e q = Inr n \<and> 0 \<le> n \<and> n \<le> 98))"
proof (cases "q \<in> set (entry_index e)")
  case True
  then have "computeScore fld e q = exact_outcome fld e q"
    unfolding computeScore_def by (intro computeScore_loop_match) auto
  with True show ?thesis
    by (auto simp: exact_outcome_def split: option.splits if_splits)
next
  case False
  then have "\<exists>n. computeScore fld e q = Inr n \<and> 0 \<le> n \<and> n \<le> 98"
    unfolding computeScore_def by (intro computeScore_loop_no_match) auto
  with False show ?thesis by auto
qed

theorem computeScore_exact_match_witness:
  "''aragorn'' \<in> set (entry_index elessar_entry)
   \<and> computeScore id elessar_entry ''aragorn'' = Inr 99
   \<and> ''king'' \<in> set (entry_index elessar_entry)
   \<and> computeScore id elessar_entry ''king'' = Inr 100
   \<and> ''ara'' \<notin> set (entry_index elessar_entry)
   \<and> computeScore id elessar_entry ''ara'' = Inr 42"
  using computeScore_exact_match [of id elessar_entry "''aragorn''" "''Aragorn Elessar''" "''king''"]
    computeScore_exact_match [of id elessar_entry "''king''"]
    computeScore_exact_match [of id elessar_entry "''ara''"]
  by (simp add: elessar_entry_def computeScore_def computeWordScore_def Math_round_def
      floor_eq_iff toLowerCase_def toLowerChar_def indexOf_def)

text \<open>
  C1 as stated fails: the token \<open>aragorn\<close> of the entry \<open>Aragorn Elessar\<close> equals the query,
  and the score is 99, not 100.
\<close>

theorem computeScore_exact_token_counterexample:
  "''aragorn'' \<in> set (entry_index elessar_entry)
   \<and> computeScore id elessar_entry ''aragorn'' = Inr 99
   \<and> computeScore id elessar_entry ''aragorn'' \<noteq> Inr 100"
  by (simp add: elessar_entry_def computeScore_def computeWordScore_def Math_round_def
      floor_eq_iff toLowerCase_def toLowerChar_def indexOf_def)

text \<open>
  C4 (as amended). For a token \<open>t\<close> different from the query \<open>q\<close> that starts with \<open>q\<close>, the
  per-token score is \<open>98 * len(q) / len(t)\<close>; the query \<open>ara\<close> against an entry whose only
  token is \<open>aragorn\<close> yields the entry score \<open>round(98 * 3 / 7) = 42\<close>.
\<close>

theorem computeWordScore_prefix:
  "(t \<noteq> q \<and> startsWith t q \<longrightarrow>
      computeWordScore t q = 98 * of_nat (length q) / of_nat (length t))
   \<and> (entry_index e = [''aragorn''] \<longrightarrow> computeScore fld e ''ara'' = Inr 42)"
  by (simp add: computeScore_def computeWordScore_def Math_round_def floor_eq_iff)

theorem computeWordScore_prefix_witness:
  "''aragorn'' \<noteq> ''ara'' \<and> startsWith ''aragorn'' ''ara''
   \<and> computeWordScore ''aragorn'' ''ara'' = 98 * 3 / 7
   \<and> entry_index aragorn_entry = [''aragorn'']
   \<and> computeScore id aragorn_entry ''ara'' = Inr 42"
  using computeWordScore_prefix [of "''aragorn''" "''ara''" aragorn_entry id]
  by (simp add: aragorn_entry_def)

text \<open>
  C4 as stated fails: the prefix score of \<open>ara\<close> in \<open>aragorn\<close> is not \<open>100 * 3 / 7\<close>, and the
  entry score is not 43.
\<close>

theorem computeWordScore_prefix_counterexample:
  "''aragorn'' \<noteq> ''ara'' \<and> startsWith ''aragorn'' ''ara''
   \<and> computeWordScore ''aragorn'' ''ara'' \<noteq> 100 * of_nat (length ''ara'') / of_nat (length ''aragorn'')
   \<and> computeScore id aragorn_entry ''ara'' \<noteq> Inr 43"
  by (simp add: aragorn_entry_def computeScore_def computeWordScore_def Math_round_def
      floor_eq_iff)

section \<open>Properties of the indexer and the query engine\<close>

lemma index_word_nonempty: "w \<in> set (index_word word) \<Longrightarrow> w \<noteq> []"
  by (auto simp: index_word_def Let_def split: if_splits)

lemma computeIndex_nonempty: "computeIndex fld node = Inr idx \<Longrightarrow> [] \<notin> set idx"
  by (auto simp: computeIndex_def split: option.splits dest: index_word_nonempty)

lemma word_entry_nonempty:
  "word_entry fld node = Inr es \<Longrightarrow> e \<in> set es \<Longrightarrow> [] \<notin> set (entry_index e)"
  by (auto simp: word_entry_def Let_def split: if_splits sum.splits dest: computeIndex_nonempty)

lemma collect_forall:
  "collect rs = Inr es \<Longrightarrow> (\<And>r es'. r \<in> set rs \<Longrightarrow> r = Inr es' \<Longrightarrow> \<forall>e\<in>set es'. P e)
   \<Longrightarrow> \<forall>e\<in>set es. P e"
proof (induction rs arbitrary: es rule: collect.induct)
  case 1
  then show ?case by simp
next
  case (2 err rs)
  then show ?case by simp
next
  case (3 es0 rs)
  from "3.prems"(1) obtain es' where c: "collect rs = Inr es'" and es: "es = es0 @ es'"
    by (auto split: sum.splits)
  have "\<forall>e\<in>set es'. P e"
    using c by (rule "3.IH") (use "3.prems"(2) in auto)
  moreover have "\<forall>e\<in>set es0. P e" using "3.prems"(2) [of "Inr es0" es0] by simp
  ultimately show ?case using es by auto
qed

lemma compileDictionaryRecursive_nonempty:
  "compileDictionaryRecursive fld node = Inr es \<Longrightarrow> \<forall>e\<in>set es. [] \<notin> set (entry_index e)"
proof (induction fld node arbitrary: es rule: compileDictionaryRecursive.induct)
  case (1 fld name attr val cs)
  from "1.prems" obtain res es' where
    w: "word_entry fld (XmlElement name attr val cs) = Inr res"
    and c: "collect (map (compileDictionaryRecursive fld) cs) = Inr es'"
    and es: "es = res @ es'"
    by (auto split: sum.splits)
  have "\<forall>e\<in>set es'. [] \<notin> set (entry_index e)"
    using c
  proof (rule collect_forall)
    fix r es''
    assume "r \<in> set (map (compileDictionaryRecursive fld) cs)" "r = Inr es''"
    then obtain x where "x \<in> set cs" "compileDictionaryRecursive fld x = Inr es''" by auto
    then show "\<forall>e\<in>set es''. [] \<notin> set (entry_index e)" using "1.IH" w by blast
  qed
  moreover have "\<forall>e\<in>set res. [] \<notin> set (entry_index e)"
    using w word_entry_nonempty by blast
  ultimately show ?case using es by auto
qed

lemma computeWordScore_empty_query: "t \<noteq> [] \<Longrightarrow> computeWordScore t [] = 0"
  by (simp add: computeWordScore_def)

lemma computeScore_loop_empty_query:
  "[] \<notin> set ws \<Longrightarrow> computeScore_loop fld e [] 0 ws = Inr 0"
proof (induction ws)
  case Nil
  show ?case by (simp add: Math_round_def floor_eq_iff)
next
  case (Cons w ws)
  then have "computeWordScore w [] = 0" by (auto intro: computeWordScore_empty_query)
  with Cons show ?case by simp
qed

lemma matchQuery_loop_empty_query:
  "\<forall>e\<in>set es. [] \<notin> set (entry_index e) \<Longrightarrow> matchQuery_loop fld tbl [] es res = Inr res"
  by (induction es) (auto simp: computeScore_def computeScore_loop_empty_query)

text \<open>
  C10. For the empty query every token of a compiled dictionary scores 0 (tokens are never
  empty, the empty string is a prefix of each, and the prefix formula multiplies by the
  query length 0), so \<open>matchQuery("")\<close> returns the empty list for every compiled
  dictionary, whatever the short-gloss table.
\<close>

theorem matchQuery_empty_query:
  "compileDictionary fld doc tbl = Inr (es, tbl') \<Longrightarrow>
   (\<forall>e\<in>set es. \<forall>t\<in>set (entry_index e). computeWordScore t [] = 0)
   \<and> matchQuery fld (Some es) tbl'' [] = Inr []"
proof -
  assume "compileDictionary fld doc tbl = Inr (es, tbl')"
  then have "compileDictionaryRecursive fld doc = Inr es"
    by (auto simp: compileDictionary_def split: sum.splits)
  then have ne: "\<forall>e\<in>set es. [] \<notin> set (entry_index e)"
    by (rule compileDictionaryRecursive_nonempty)
  then have "\<forall>e\<in>set es. \<forall>t\<in>set (entry_index e). computeWordScore t [] = 0"
    by (metis computeWordScore_empty_query)
  moreover have "matchQuery fld (Some es) tbl'' [] = Inr []"
    using ne by (simp add: matchQuery_def matchQuery_loop_empty_query)
  ultimately show ?thesis by simp
qed

lemma compile_small_doc:
  "compileDictionary id small_doc Map.empty =
     Inr ([estel_entry], [Some ''estel'' \<mapsto> ''hope (lit.) trust)''])"
  by (simp add: compileDictionary_def small_doc_def estel_node_def word_entry_def
      excluded_pos_def computeIndex_def gloss_source_def toLowerCase_def toLowerChar_def
      split_space_def split_phrases_def index_word_def leading_marker_def trailing_marker_def
      substring_def substring_from_def has_digit_def STOP_WORDS_def correctTengwar_def correctTengwar_on_def
      notes_of_def element_headwords_def add_definition_def estel_entry_def)

theorem matchQuery_empty_query_witness:
  "compileDictionary id small_doc Map.empty =
     Inr ([estel_entry], [Some ''estel'' \<mapsto> ''hope (lit.) trust)''])
   \<and> computeWordScore ''estel'' [] = 0 \<and> computeWordScore ''hope'' [] = 0
   \<and> matchQuery id (Some [estel_entry]) [Some ''estel'' \<mapsto> ''hope (lit.) trust)''] [] = Inr []"
  using matchQuery_empty_query [OF compile_small_doc, of "[Some ''estel'' \<mapsto> ''hope (lit.) trust)'']"]
    compile_small_doc
  by (simp add: estel_entry_def)

text \<open>
  C5. The code at the failing input: a gloss word that ends in a closing parenthesis or
  bracket is emptied by \<open>substring(0, -1)\<close> and contributes no token, so \<open>trust)\<close> and
  \<open>(lit.)\<close> vanish from the index of the node \<open>estel\<close>.
\<close>

theorem computeIndex_trailing_marker:
  "index_word ''trust)'' = [] \<and> index_word ''(lit.)'' = []
   \<and> substring ''trust)'' 0 (- 1) = []
   \<and> computeIndex id estel_node = Inr [''estel'', ''hope'']"
  by (simp add: estel_node_def computeIndex_def gloss_source_def toLowerCase_def toLowerChar_def
      split_space_def split_phrases_def index_word_def leading_marker_def trailing_marker_def
      substring_def substring_from_def has_digit_def STOP_WORDS_def)

text \<open>
  C2. The code at the failing input: the gloss paired with the element \<open>ara\<close> is the table's
  value for the query \<open>aragorn\<close>, not the one for the element's own headword.
\<close>

theorem matchQuery_element_gloss:
  "element_table (Some ''ara'') = Some ''noble''
   \<and> entry_elements elessar_entry = [''ara'']
   \<and> map_sum id (map result_elements) (matchQuery id (Some [elessar_entry]) element_table ''aragorn'')
       = Inr [[(''ara'', ''king'')]]"
  by (simp add: element_table_def elessar_entry_def matchQuery_def make_result_def
      computeScore_def computeWordScore_def Math_round_def floor_eq_iff toLowerCase_def
      toLowerChar_def indexOf_def)

text \<open>
  C7 (as amended). On a dictionary with no entries \<open>matchQuery\<close> returns the empty list for
  every query. When the dictionary is absent (\<open>loadDictionary\<close> returns \<open>undefined\<close> when
  neither file can be read) \<open>matchQuery\<close> faults with a TypeError for every query.
\<close>

theorem matchQuery_no_dictionary:
  "matchQuery fld (Some []) tbl q = Inr []
   \<and> matchQuery fld None tbl q = Inl TypeError
   \<and> loadDictionary fld None None tbl = (None, tbl)"
  by (simp add: matchQuery_def loadDictionary_def)

text \<open>
  C7 as stated fails: after a failed load the dictionary is \<open>undefined\<close> and the query does
  not evaluate to the empty list.
\<close>

theorem matchQuery_no_dictionary_counterexample:
  "fst (loadDictionary id None None Map.empty) = None
   \<and> matchQuery id (fst (loadDictionary id None None Map.empty)) Map.empty ''aragorn'' \<noteq> Inr []"
  by (simp add: matchQuery_def loadDictionary_def)

section \<open>Properties of the tengwar correction\<close>

lemma of_char_eq_nat: "of_char c = (n::nat) \<Longrightarrow> c = char_of n"
  by (metis char_of_char)

lemma toLowerChar_s: "toLowerChar c = CHR ''s'' \<longleftrightarrow> sibilant c"
proof -
  define n where "n = (of_char c :: nat)"
  define up where "up \<longleftrightarrow> (65 \<le> n \<and> n \<le> 90) \<or> (192 \<le> n \<and> n \<le> 222 \<and> n \<noteq> 215)"
  have c: "c = char_of n" by (simp add: n_def)
  have n: "n < 256" by (simp add: n_def)
  have "of_char (CHR ''s'') = (115::nat)" by simp
  then have s1: "CHR ''s'' = char_of (115::nat)" by (rule of_char_eq_nat)
  have "of_char (CHR ''S'') = (83::nat)" by simp
  then have s2: "CHR ''S'' = char_of (83::nat)" by (rule of_char_eq_nat)
  have eq: "char_of a = char_of b \<longleftrightarrow> a = b" if "a < 256" "b < 256" for a b :: nat
    using that by simp
  have tl: "toLowerChar c = (if up then char_of (n + 32) else c)"
    by (simp add: toLowerChar_def Let_def n_def up_def)
  have sib: "sibilant c \<longleftrightarrow> n = 115 \<or> n = 83"
    unfolding sibilant_def c s1 s2 using n by (simp add: eq)
  show ?thesis
  proof (cases up)
    case True
    then have r: "n + 32 < 256" "n \<noteq> 115" using n by (auto simp: up_def)
    from True have "toLowerChar c = char_of (n + 32)" using tl by simp
    then have "toLowerChar c = CHR ''s'' \<longleftrightarrow> n + 32 = 115" unfolding s1 using r by (simp add: eq)
    with sib r show ?thesis by auto
  next
    case False
    then have r: "n \<noteq> 83" by (auto simp: up_def)
    from False have "toLowerChar c = c" using tl by simp
    moreover have "char_of n = char_of (115::nat) \<longleftrightarrow> n = 115" using n by (simp add: eq)
    ultimately have "toLowerChar c = CHR ''s'' \<longleftrightarrow> n = 115" unfolding s1 using c by simp
    with sib r show ?thesis by auto
  qed
qed

lemma toLowerChar_s_sym: "CHR ''s'' = toLowerChar c \<longleftrightarrow> sibilant c"
  using toLowerChar_s [of c] by auto

lemma startsWith_single: "startsWith w [c] \<longleftrightarrow> w \<noteq> [] \<and> hd w = c"
  by (cases w) auto

lemma indexOf_from_absent: "c \<notin> set w \<Longrightarrow> indexOf_from w [c] i = - 1"
  by (induction w arbitrary: i) auto

lemma indexOf_from_first:
  "c \<notin> set pre \<Longrightarrow> indexOf_from (pre @ c # post) [c] i = int (i + length pre)"
  by (induction pre arbitrary: i) auto

lemma substr_take: "substr v 0 (int k) = take k v"
  by (simp add: substr_def Let_def min_def max_def)

lemma substr_from_drop: "substr_from v (int k + 1) = drop (Suc k) v"
  by (auto simp add: substr_from_def substr_def Let_def min_def max_def nat_add_distrib)

lemma substring_from_1: "substring_from (c # rest) 1 = rest"
  by (simp add: substring_from_def substring_def Let_def min_def max_def)

lemma thorn_case:
  assumes "node_attr node ''v'' = Some v" "v \<noteq> []"
    and "node_attr node ''tengwar'' = Some t" "t = [thorn] \<or> t = [thorn, CHR ''-'']"
  shows "correctTengwar node =
     (let index = indexOf (toLowerCase v) ''s''
      in if index \<ge> 0 then
           Some (substr v 0 index
                 @ [if nat index < length v \<and> v ! nat index = CHR ''S'' then Thorn else thorn]
                 @ substr_from v (index + 1))
         else Some v)"
  using assms by (auto simp: correctTengwar_def correctTengwar_on_def n_tilde_def thorn_def Let_def)


lemma indexOf_lower_none:
  assumes "\<forall>x\<in>set v. \<not> sibilant x"
  shows "indexOf (toLowerCase v) ''s'' = - 1"
proof -
  from assms have "CHR ''s'' \<notin> set (toLowerCase v)"
    by (auto simp: toLowerCase_def toLowerChar_s_sym)
  then show ?thesis unfolding indexOf_def by (rule indexOf_from_absent)
qed

lemma indexOf_lower_first:
  assumes "\<forall>x\<in>set pre. \<not> sibilant x" "sibilant c"
  shows "indexOf (toLowerCase (pre @ c # post)) ''s'' = int (length pre)"
proof -
  from assms(1) have "CHR ''s'' \<notin> set (toLowerCase pre)"
    by (auto simp: toLowerCase_def toLowerChar_s_sym)
  then have "indexOf_from (toLowerCase pre @ CHR ''s'' # toLowerCase post) ''s'' 0
      = int (0 + length (toLowerCase pre))"
    by (rule indexOf_from_first)
  moreover from assms(2) have "toLowerCase (pre @ c # post)
      = toLowerCase pre @ CHR ''s'' # toLowerCase post"
    by (simp add: toLowerCase_def toLowerChar_s)
  ultimately show ?thesis by (simp add: indexOf_def toLowerCase_def)
qed

lemma thorn_first:
  assumes "node_attr node ''v'' = Some (pre @ c # post)"
    and "node_attr node ''tengwar'' = Some t" "t = [thorn] \<or> t = [thorn, CHR ''-'']"
    and "\<forall>x\<in>set pre. \<not> sibilant x" "sibilant c"
  shows "correctTengwar node = Some (pre @ (if c = CHR ''S'' then Thorn else thorn) # post)"
proof -
  have i: "indexOf (toLowerCase (pre @ c # post)) ''s'' = int (length pre)"
    using assms(4,5) by (rule indexOf_lower_first)
  have "substr (pre @ c # post) 0 (int (length pre)) = pre"
    by (simp add: substr_take)
  moreover have "substr_from (pre @ c # post) (int (length pre) + 1) = post"
    by (simp add: substr_from_drop)
  ultimately show ?thesis
    using thorn_case [OF assms(1) _ assms(2,3)] i by (simp add: Let_def)
qed

lemma thorn_none:
  assumes "node_attr node ''v'' = Some v"
    and "node_attr node ''tengwar'' = Some t" "t = [thorn] \<or> t = [thorn, CHR ''-'']"
    and "\<forall>x\<in>set v. \<not> sibilant x"
  shows "correctTengwar node = Some v"
proof (cases "v = []")
  case True
  with assms show ?thesis by (simp add: correctTengwar_def correctTengwar_on_def)
next
  case False
  have "indexOf (toLowerCase v) ''s'' = - 1" using assms(4) by (rule indexOf_lower_none)
  with thorn_case [OF assms(1) False assms(2,3)] show ?thesis by (simp add: Let_def)
qed

lemma nasal_case:
  assumes "node_attr node ''v'' = Some (c # rest)"
    and "node_attr node ''tengwar'' = Some t" "t = [n_tilde] \<or> t = [n_tilde, CHR ''-'']"
  shows "correctTengwar node =
     Some ((if c = CHR ''n'' then n_tilde else if c = CHR ''N'' then N_tilde else c) # rest)"
  using assms by (auto simp: correctTengwar_def correctTengwar_on_def substring_from_1)

lemma absent_case:
  assumes "node_attr node ''v'' = None \<or> node_attr node ''v'' = Some []
      \<or> node_attr node ''tengwar'' = None \<or> node_attr node ''tengwar'' = Some []"
  shows "correctTengwar node = node_attr node ''v''"
  using assms by (auto simp: correctTengwar_def correctTengwar_on_def split: option.splits)

lemma literal_case:
  assumes "node_attr node ''v'' = Some v" "v \<noteq> []"
    and "node_attr node ''tengwar'' = Some norwthus_hint"
  shows "correctTengwar node = Some Norwthus"
  using assms
  by (simp add: correctTengwar_def correctTengwar_on_def norwthus_hint_def Norwthus_def n_tilde_def thorn_def)

lemma one_substitution:
  assumes v: "node_attr node ''v'' = Some v"
    and t: "node_attr node ''tengwar'' \<noteq> Some norwthus_hint"
  shows "\<exists>k x. correctTengwar node = Some (v[k := x])"
proof -
  have same: "correctTengwar node = Some v \<Longrightarrow> ?thesis"
    by (metis list_update_beyond order_refl)
  show ?thesis
  proof (cases "node_attr node ''tengwar''")
    case None
    then show ?thesis using v absent_case [of node] same by simp
  next
    case (Some t')
    consider (empty) "v = [] \<or> t' = []"
      | (nasal) "v \<noteq> []" "t' = [n_tilde] \<or> t' = [n_tilde, CHR ''-'']"
      | (thorn) "v \<noteq> []" "t' = [thorn] \<or> t' = [thorn, CHR ''-'']"
      | (other) "v \<noteq> []" "t' \<noteq> []" "\<not> (t' = [n_tilde] \<or> t' = [n_tilde, CHR ''-''])"
          "\<not> (t' = [thorn] \<or> t' = [thorn, CHR ''-''])"
      by blast
    then show ?thesis
    proof cases
      case empty
      then show ?thesis using v Some absent_case [of node] same by auto
    next
      case nasal
      then obtain c rest where "v = c # rest" by (cases v) auto
      with nasal_case [of node c rest t'] v Some nasal(2)
      have "correctTengwar node =
          Some (v[0 := (if c = CHR ''n'' then n_tilde else if c = CHR ''N'' then N_tilde else c)])"
        by simp
      then show ?thesis by blast
    next
      case thorn
      show ?thesis
      proof (cases "\<forall>x\<in>set v. \<not> sibilant x")
        case True
        with thorn_none [OF v Some thorn(2)] same show ?thesis by simp
      next
        case False
        then have "\<exists>x\<in>set v. sibilant x" by simp
        then obtain pre c post where
          "v = pre @ c # post" "sibilant c" "\<forall>x\<in>set pre. \<not> sibilant x"
          by (auto simp: split_list_first_prop_iff)
        with thorn_first [of node pre c post t'] v Some thorn(2)
        have "correctTengwar node =
            Some (v[length pre := (if c = CHR ''S'' then Thorn else thorn)])"
          by simp
        then show ?thesis by blast
      qed
    next
      case other
      with v Some t have "correctTengwar node = Some v"
        by (simp add: correctTengwar_def correctTengwar_on_def norwthus_hint_def)
      then show ?thesis by (rule same)
    qed
  qed
qed

text \<open>
  On headwords of Latin-1 code units lower-casing keeps every position, and there
  \<open>correctTengwar\<close> does what its comments say. When the headword or the hint is absent (or
  empty) the headword is returned unchanged. With a nasal hint the first character is
  replaced only if it is \<open>n\<close> or \<open>N\<close>, keeping its case. With a sibilant hint the first \<open>s\<close>
  or \<open>S\<close> is replaced, keeping its case, and a headword without one is unchanged. With the
  literal hint the fixed word is returned. For every other hint the result is the headword
  with at most one position changed.
\<close>

lemma correctTengwar_latin1:
  "(node_attr node ''v'' = None \<or> node_attr node ''v'' = Some []
      \<or> node_attr node ''tengwar'' = None \<or> node_attr node ''tengwar'' = Some []
      \<longrightarrow> correctTengwar node = node_attr node ''v'')
   \<and> (node_attr node ''v'' = Some (c # rest) \<and> node_attr node ''tengwar'' = Some t
        \<and> (t = [n_tilde] \<or> t = [n_tilde, CHR ''-''])
      \<longrightarrow> correctTengwar node =
            Some ((if c = CHR ''n'' then n_tilde else if c = CHR ''N'' then N_tilde else c) # rest))
   \<and> (node_attr node ''v'' = Some (pre @ s # post) \<and> node_attr node ''tengwar'' = Some t
        \<and> (t = [thorn] \<or> t = [thorn, CHR ''-''])
        \<and> (\<forall>x\<in>set pre. \<not> sibilant x) \<and> sibilant s
      \<longrightarrow> correctTengwar node = Some (pre @ (if s = CHR ''S'' then Thorn else thorn) # post))
   \<and> (node_attr node ''v'' = Some v \<and> node_attr node ''tengwar'' = Some t
        \<and> (t = [thorn] \<or> t = [thorn, CHR ''-'']) \<and> (\<forall>x\<in>set v. \<not> sibilant x)
      \<longrightarrow> correctTengwar node = Some v)
   \<and> (node_attr node ''v'' = Some v \<and> v \<noteq> [] \<and> node_attr node ''tengwar'' = Some norwthus_hint
      \<longrightarrow> correctTengwar node = Some Norwthus)
   \<and> (node_attr node ''v'' = Some v \<and> node_attr node ''tengwar'' \<noteq> Some norwthus_hint
      \<longrightarrow> (\<exists>k x. correctTengwar node = Some (v[k := x])))"
  using absent_case [of node] nasal_case [of node c rest t] thorn_first [of node pre s post t]
    thorn_none [of node v t] literal_case [of node v] one_substitution [of node v]
  by blast

text \<open>
  C8. The code at the failing input: the headword made of U+0130 (capital I with dot above)
  and \<open>s\<close>, with the sibilant hint U+00FE. Lower-casing turns the first code unit into two,
  so the \<open>s\<close> is found at index 2 of the lower-cased string; index 2 of the headword is past
  its end, so the \<open>s\<close> at index 1 is kept and a thorn is appended. The claim, and the comment
  in the code, have the first \<open>s\<close> of the headword replaced.
\<close>

theorem correctTengwar_dotted_capital:
  "toLowerCase_units [304, 115] = [105, 775, 115]
   \<and> indexOf (toLowerCase_units [304, 115]) [115] = 2
   \<and> correctTengwar_units (Some [304, 115]) (Some [254]) = Some [304, 115, 254]
   \<and> correctTengwar_units (Some [304, 115]) (Some [254]) \<noteq> Some [304, 254]"
  by (simp add: correctTengwar_units_def correctTengwar_on_def toLowerCase_units_def
      lower_unit_def indexOf_def substr_def substr_from_def n_tilde_def thorn_def Thorn_def
      Let_def)

section \<open>Properties of the ring buffer\<close>

lemma init_ring_inv: "ring_inv init_ring"
  by (simp add: ring_inv_def init_ring_def RING_SIZE_def)

lemma addToRing_inv: "ring_inv st \<Longrightarrow> ring_inv (addToRing k v st)"
  by (simp add: ring_inv_def addToRing_def array_set_def RING_SIZE_def)

lemma promote_inv:
  assumes inv: "ring_inv st" and i: "i < length (gRing st)"
  shows "ring_inv (promote i st)"
proof -
  from inv have L: "length (gRing st) = 40" and c: "gRingIndex st < 40"
    by (simp_all add: ring_inv_def RING_SIZE_def)
  show ?thesis
  proof (cases "gRingIndex st = i")
    case True
    with L show ?thesis by (simp add: promote_def ring_inv_def RING_SIZE_def)
  next
    case False
    define r1 where "r1 = array_set (gRing st) (gRingIndex st) (gRing st ! i)"
    define r2 where "r2 = splice_remove r1 i"
    define idx where "idx = (if i > gRingIndex st then (gRingIndex st + 1) mod length r2
                             else gRingIndex st)"
    define r3 where "r3 = splice_insert r2 idx None"
    have p: "promote i st = \<lparr>gRing = r3, gRingIndex = idx\<rparr>"
      using False by (simp add: promote_def Let_def r3_def idx_def r2_def r1_def)
    have l1: "length r1 = 40" using L c by (simp add: r1_def array_set_def)
    have l2: "length r2 = 39" using l1 i L by (simp add: r2_def splice_remove_def)
    have l3: "length r3 = 40" using l2 by (simp add: r3_def splice_insert_def)
    have "Suc (gRingIndex st) mod 39 < 39" by simp
    then have "Suc (gRingIndex st) mod 39 < 40" by linarith
    then have "idx < 40" using c l2 by (simp add: idx_def)
    with l3 show ?thesis by (simp add: p ring_inv_def RING_SIZE_def)
  qed
qed

lemma getFromRing_loop_inv:
  "ring_inv st \<Longrightarrow> ring_inv (snd (getFromRing_loop k i res st))"
proof (induction k i res st rule: getFromRing_loop.induct)
  case (1 k i res st)
  show ?case
  proof (cases "\<not> truthy res \<and> i < length (gRing st)")
    case False
    then show ?thesis using "1.prems" by (subst getFromRing_loop.simps) auto
  next
    case True
    note cond = this
    show ?thesis
    proof (cases "gRing st ! i")
      case None
      with cond "1.IH"(1) "1.prems" show ?thesis
        by (subst getFromRing_loop.simps) simp
    next
      case (Some kv)
      obtain key val where kv: "kv = (key, val)" by (cases kv)
      show ?thesis
      proof (cases "key = k")
        case True
        from "1.prems" cond have "ring_inv (promote i st)" by (intro promote_inv) auto
        with cond Some kv True "1.IH"(2) show ?thesis
          by (subst getFromRing_loop.simps) simp
      next
        case False
        with cond Some kv "1.IH"(3) "1.prems" show ?thesis
          by (subst getFromRing_loop.simps) simp
      qed
    qed
  qed
qed

text \<open>
  C9. The initial ring has \<open>RING_SIZE\<close> (40) slots and its cursor is in range, and every call
  of \<open>addToRing\<close> and of \<open>getFromRing\<close> (a hit or a miss, at any cursor position, also when
  a hit removes a slot by \<open>splice\<close> and inserts an empty one) keeps the array at exactly 40
  slots and the cursor \<open>gRingIndex\<close> in the range from 0 to 39.
\<close>

theorem ring_invariant:
  "ring_inv init_ring
   \<and> (ring_inv st \<longrightarrow> ring_inv (addToRing k v st) \<and> ring_inv (snd (getFromRing k st)))"
  using init_ring_inv addToRing_inv getFromRing_loop_inv by (simp add: getFromRing_def)

lemma two_keys_ring_inv: "ring_inv two_keys_ring"
  unfolding two_keys_ring_def by (intro addToRing_inv init_ring_inv)

theorem ring_invariant_witness:
  "ring_inv two_keys_ring
   \<and> ring_inv (addToRing ''ara'' ''[3]'' two_keys_ring)
   \<and> fst (getFromRing ''aragorn'' two_keys_ring) = Some ''[1]''
   \<and> ring_inv (snd (getFromRing ''aragorn'' two_keys_ring))
   \<and> length (gRing (snd (getFromRing ''aragorn'' two_keys_ring))) = 40
   \<and> gRingIndex (snd (getFromRing ''aragorn'' two_keys_ring)) = 2"
proof -
  have g: "getFromRing ''aragorn'' two_keys_ring = (Some ''[1]'', promote 0 two_keys_ring)"
    unfolding getFromRing_def
    by (subst getFromRing_loop.simps, subst getFromRing_loop.simps)
      (simp add: two_keys_ring_def addToRing_def init_ring_def RING_SIZE_def array_set_def
        truthy_def)
  show ?thesis
    using ring_invariant [of two_keys_ring "''ara''" "''[3]''"]
      ring_invariant [of two_keys_ring "''aragorn''"] two_keys_ring_inv g
    by (simp add: ring_inv_def RING_SIZE_def)
      (simp add: two_keys_ring_def addToRing_def init_ring_def RING_SIZE_def array_set_def
        promote_def splice_remove_def splice_insert_def)
qed

section \<open>Properties of the dictionary compiler\<close>

lemma add_definition_not_glossed: "\<not> glossed e \<Longrightarrow> add_definition tbl e = tbl"
  by (cases "entry_gloss e") (auto simp add: add_definition_def glossed_def)

lemma add_definition_same:
  "glossed e \<Longrightarrow> tbl (entry_v e) = entry_gloss e \<Longrightarrow> add_definition tbl e = tbl"
  by (cases "entry_gloss e") (simp_all add: add_definition_def glossed_def)

lemma add_definition_new:
  "glossed e \<Longrightarrow> tbl (entry_v e) = None \<Longrightarrow>
   add_definition tbl e (entry_v e) = entry_gloss e"
  by (cases "entry_gloss e") (simp_all add: add_definition_def glossed_def)

lemma add_definition_other: "k \<noteq> entry_v e \<Longrightarrow> add_definition tbl e k = tbl k"
  by (cases "entry_gloss e"; cases "tbl (entry_v e)") (simp_all add: add_definition_def)


lemma add_definition_preserved:
  "(\<forall>e\<in>set es. glossed e \<and> entry_v e = k \<longrightarrow> entry_gloss e = Some g) \<Longrightarrow> tbl k = Some g
   \<Longrightarrow> foldl add_definition tbl es k = Some g"
proof (induction es arbitrary: tbl)
  case Nil
  then show ?case by simp
next
  case (Cons e es)
  have "add_definition tbl e k = Some g"
  proof (cases "glossed e \<and> entry_v e = k")
    case True
    with Cons.prems have "tbl (entry_v e) = entry_gloss e" by simp
    with True have "add_definition tbl e = tbl" by (simp add: add_definition_same)
    with Cons.prems show ?thesis by simp
  next
    case False
    then show ?thesis
      using Cons.prems(2) add_definition_not_glossed [of e tbl] add_definition_other [of k e tbl]
      by auto
  qed
  moreover have "\<forall>e\<in>set es. glossed e \<and> entry_v e = k \<longrightarrow> entry_gloss e = Some g"
    using Cons.prems(1) by simp
  ultimately show ?case using Cons.IH [of "add_definition tbl e"] by simp
qed

lemma add_definition_idle:
  "(\<forall>e\<in>set es. glossed e \<longrightarrow> tbl (entry_v e) = entry_gloss e) \<Longrightarrow>
   foldl add_definition tbl es = tbl"
proof (induction es)
  case Nil
  show ?case by simp
next
  case (Cons e es)
  have "add_definition tbl e = tbl"
    using Cons.prems add_definition_not_glossed [of e tbl] add_definition_same [of e tbl]
    by (cases "glossed e") simp_all
  moreover have "\<forall>e\<in>set es. glossed e \<longrightarrow> tbl (entry_v e) = entry_gloss e"
    using Cons.prems by simp
  ultimately show ?case using Cons.IH by simp
qed


lemma single_glossD:
  "single_gloss es \<Longrightarrow> e1 \<in> set es \<Longrightarrow> e2 \<in> set es \<Longrightarrow> glossed e1 \<Longrightarrow> glossed e2
   \<Longrightarrow> entry_v e1 = entry_v e2 \<Longrightarrow> entry_gloss e1 = entry_gloss e2"
  unfolding single_gloss_def by blast

lemma single_gloss_tail: "single_gloss (e # es) \<Longrightarrow> single_gloss es"
  unfolding single_gloss_def by (meson list.set_intros(2))

lemma add_definition_fills:
  "single_gloss es \<Longrightarrow>
   (\<forall>e\<in>set es. glossed e \<longrightarrow> tbl (entry_v e) = None \<or> tbl (entry_v e) = entry_gloss e) \<Longrightarrow>
   \<forall>e\<in>set es. glossed e \<longrightarrow> foldl add_definition tbl es (entry_v e) = entry_gloss e"
proof (induction es arbitrary: tbl)
  case Nil
  then show ?case by simp
next
  case (Cons e es)
  define tbl1 where "tbl1 = add_definition tbl e"
  have sg: "single_gloss es" using Cons.prems(1) by (rule single_gloss_tail)
  have here: "tbl1 (entry_v e) = entry_gloss e" if g: "glossed e"
  proof -
    from Cons.prems(2) g
    have "tbl (entry_v e) = None \<or> tbl (entry_v e) = entry_gloss e" by simp
    then show ?thesis
      using g add_definition_new [of e tbl] add_definition_same [of e tbl]
      by (auto simp: tbl1_def)
  qed
  have other: "tbl1 k = tbl k" if "\<not> glossed e \<or> k \<noteq> entry_v e" for k
    using that add_definition_not_glossed [of e tbl] add_definition_other [of k e tbl]
    by (auto simp: tbl1_def)
  have pre: "\<forall>e'\<in>set es. glossed e' \<longrightarrow>
      tbl1 (entry_v e') = None \<or> tbl1 (entry_v e') = entry_gloss e'"
  proof (intro ballI impI)
    fix e' assume e': "e' \<in> set es" "glossed e'"
    show "tbl1 (entry_v e') = None \<or> tbl1 (entry_v e') = entry_gloss e'"
    proof (cases "glossed e \<and> entry_v e' = entry_v e")
      case True
      have "entry_gloss e = entry_gloss e'"
        by (rule single_glossD [OF Cons.prems(1)]) (use True e' in simp_all)
      with True here show ?thesis by simp
    next
      case False
      then have "tbl1 (entry_v e') = tbl (entry_v e')" by (intro other) auto
      moreover from Cons.prems(2) e'
      have "tbl (entry_v e') = None \<or> tbl (entry_v e') = entry_gloss e'" by simp
      ultimately show ?thesis by simp
    qed
  qed
  have rest: "\<forall>e'\<in>set es. glossed e' \<longrightarrow>
      foldl add_definition tbl1 es (entry_v e') = entry_gloss e'"
    using sg pre by (rule Cons.IH)
  have first: "foldl add_definition tbl1 es (entry_v e) = entry_gloss e" if g: "glossed e"
  proof -
    from g obtain gl where gl: "entry_gloss e = Some gl"
      by (cases "entry_gloss e") (simp_all add: glossed_def)
    have "\<forall>e'\<in>set es. glossed e' \<and> entry_v e' = entry_v e \<longrightarrow> entry_gloss e' = Some gl"
    proof (intro ballI impI)
      fix e' assume e': "e' \<in> set es" "glossed e' \<and> entry_v e' = entry_v e"
      have "entry_gloss e' = entry_gloss e"
        by (rule single_glossD [OF Cons.prems(1)]) (use g e' in simp_all)
      with gl show "entry_gloss e' = Some gl" by simp
    qed
    moreover have "tbl1 (entry_v e) = Some gl" using here g gl by simp
    ultimately have "foldl add_definition tbl1 es (entry_v e) = Some gl"
      by (rule add_definition_preserved)
    with gl show ?thesis by simp
  qed
  show ?case using rest first by (simp add: tbl1_def)
qed

text \<open>
  C6 (as amended). Compiling the same tree again yields the same entry list, whatever the
  short-gloss table holds when the run starts. A second run of \<open>compileDictionary\<close> on the
  table left by a first run (from the empty table) leaves that table unchanged when no
  headword has two glossed entries with different glosses.
\<close>

theorem compileDictionary_twice:
  assumes "compileDictionary fld doc Map.empty = Inr (es, tbl1)"
  shows "(\<exists>tbl2. compileDictionary fld doc tbl = Inr (es, tbl2))
    \<and> (single_gloss es \<longrightarrow> compileDictionary fld doc tbl1 = Inr (es, tbl1))"
proof -
  from assms have r: "compileDictionaryRecursive fld doc = Inr es"
    and t: "tbl1 = foldl add_definition Map.empty es"
    by (auto simp: compileDictionary_def split: sum.splits)
  have "compileDictionary fld doc tbl = Inr (es, foldl add_definition tbl es)"
    using r by (simp add: compileDictionary_def)
  moreover have "compileDictionary fld doc tbl1 = Inr (es, tbl1)" if "single_gloss es"
  proof -
    have "\<forall>e\<in>set es. glossed e \<longrightarrow> tbl1 (entry_v e) = entry_gloss e"
      unfolding t using that by (rule add_definition_fills) simp
    then have "foldl add_definition tbl1 es = tbl1" by (rule add_definition_idle)
    with r show ?thesis by (simp add: compileDictionary_def)
  qed
  ultimately show ?thesis by blast
qed


theorem compileDictionary_twice_witness:
  "compileDictionary id small_doc Map.empty =
     Inr ([estel_entry], [Some ''estel'' \<mapsto> ''hope (lit.) trust)''])
   \<and> single_gloss [estel_entry]
   \<and> compileDictionary id small_doc [Some ''estel'' \<mapsto> ''hope (lit.) trust)''] =
     Inr ([estel_entry], [Some ''estel'' \<mapsto> ''hope (lit.) trust)''])"
proof -
  have s: "single_gloss [estel_entry]" unfolding single_gloss_def by simp
  show ?thesis
    using compileDictionary_twice [OF compile_small_doc, of Map.empty] compile_small_doc s
    by simp
qed

lemma compile_homonym_doc:
  "compileDictionaryRecursive id homonym_doc =
     Inr [\<lparr>entry_v = Some ''sir'', entry_index = [''sir'', ''river''], entry_language = None,
           entry_pos = [], entry_gloss = Some ''river'', entry_stem = None,
           entry_notes = None, entry_tengwar = None, entry_elements = []\<rparr>,
          \<lparr>entry_v = Some ''sir'', entry_index = [''sir'', ''today''], entry_language = None,
           entry_pos = [], entry_gloss = Some ''today'', entry_stem = None,
           entry_notes = None, entry_tengwar = None, entry_elements = []\<rparr>]"
  by (simp add: homonym_doc_def word_entry_def
      excluded_pos_def computeIndex_def gloss_source_def toLowerCase_def toLowerChar_def
      split_space_def split_phrases_def index_word_def leading_marker_def trailing_marker_def
      substring_def substring_from_def has_digit_def STOP_WORDS_def correctTengwar_def correctTengwar_on_def
      notes_of_def element_headwords_def)

text \<open>
  C6 as stated fails: for two entries \<open>sir\<close> with the glosses \<open>river\<close> and \<open>today\<close> the first
  run leaves the merged gloss \<open>river / today\<close>, and the second run on the same tree extends
  it to \<open>river / today / river / today\<close>.
\<close>

theorem compileDictionary_twice_counterexample:
  "table_of (compileDictionary id homonym_doc Map.empty) (Some ''sir'') = Some ''river / today''
   \<and> table_of (compileDictionary id homonym_doc
        (table_of (compileDictionary id homonym_doc Map.empty))) (Some ''sir'')
      = Some ''river / today / river / today''"
  by (simp add: table_of_def compileDictionary_def compile_homonym_doc add_definition_def)

section \<open>The ring buffer as a recency cache\<close>

lemma occupied_append: "occupied (xs @ ys) = occupied xs @ occupied ys"
  by (induction xs rule: occupied.induct) simp_all

lemma set_occupied: "set (occupied xs) = {e. Some e \<in> set xs}"
  by (induction xs rule: occupied.induct) auto

lemma promote_at:
  "promote (gRingIndex st) st = st\<lparr>gRingIndex := (gRingIndex st + 1) mod length (gRing st)\<rparr>"
  by (simp add: promote_def)

lemma promote_before:
  "promote (length A) \<lparr>gRing = A @ h # B @ x # C, gRingIndex = Suc (length A + length B)\<rparr>
   = \<lparr>gRing = A @ B @ h # None # C, gRingIndex = Suc (length A + length B)\<rparr>"
  by (simp add: promote_def array_set_def splice_remove_def splice_insert_def Let_def
      list_update_append nth_append)

lemma promote_after:
  assumes "B @ C \<noteq> []"
  shows "promote (Suc (length A + length B)) \<lparr>gRing = A @ x # B @ h # C, gRingIndex = length A\<rparr>
   = \<lparr>gRing = A @ h # None # B @ C, gRingIndex = Suc (length A)\<rparr>"
proof -
  from assms have "0 < length B + length C" by (cases B) auto
  then have m: "Suc (length A) mod Suc (length A + length B + length C) = Suc (length A)"
    by simp
  show ?thesis
    by (simp add: promote_def array_set_def splice_remove_def splice_insert_def Let_def
      list_update_append nth_append m)
qed

lemma promote_after_wrap:
  "promote (Suc (length A)) \<lparr>gRing = A @ [x, h], gRingIndex = length A\<rparr>
   = \<lparr>gRing = None # A @ [h], gRingIndex = 0\<rparr>"
  by (simp add: promote_def array_set_def splice_remove_def splice_insert_def Let_def
      list_update_append nth_append)

lemma split_two:
  assumes "i < j" "j < length R"
  shows "\<exists>A B C. R = A @ R ! i # B @ R ! j # C \<and> length A = i \<and> Suc (i + length B) = j"
proof -
  define D where "D = drop (Suc i) R"
  define j' where "j' = j - Suc i"
  from assms have i: "i < length R" by simp
  then have R: "R = take i R @ R ! i # D" by (simp add: D_def id_take_nth_drop)
  from assms have j': "j' < length D" "Suc i + j' = j" by (auto simp: D_def j'_def)
  then have "D = take j' D @ D ! j' # drop (Suc j') D" by (simp add: id_take_nth_drop)
  moreover have "D ! j' = R ! j" using j' assms by (simp add: D_def)
  ultimately have D: "D = take j' D @ R ! j # drop (Suc j') D" by simp
  have "R = take i R @ R ! i # take j' D @ R ! j # drop (Suc j') D"
    using R D by simp
  moreover have "length (take i R) = i" using i by simp
  moreover have "Suc (i + length (take j' D)) = j" using j' by simp
  ultimately show ?thesis by blast
qed


lemma scan_miss:
  "\<forall>j. i \<le> j \<and> j < length (gRing st) \<longrightarrow> \<not> holds_key k (gRing st ! j) \<Longrightarrow>
   getFromRing_loop k i None st = (None, st)"
proof (induction "length (gRing st) - i" arbitrary: i)
  case 0
  then have "\<not> i < length (gRing st)" by simp
  then show ?case by (subst getFromRing_loop.simps) simp
next
  case (Suc n)
  then have i: "i < length (gRing st)" by simp
  with Suc.prems have nk: "\<not> holds_key k (gRing st ! i)" by simp
  have "getFromRing_loop k (Suc i) None st = (None, st)"
    using Suc.hyps(2) Suc.prems by (intro Suc.hyps(1)) auto
  with i nk show ?case
    by (subst getFromRing_loop.simps)
      (auto simp: truthy_def holds_key_def split: option.splits)
qed

lemma scan_hit:
  assumes "i < length (gRing st)" "gRing st ! i = Some (k, v)" "v \<noteq> []"
    and "\<forall>j. j0 \<le> j \<and> j < i \<longrightarrow> \<not> holds_key k (gRing st ! j)" "j0 \<le> i"
  shows "getFromRing_loop k j0 None st = (Some v, promote i st)"
  using assms(4,5)
proof (induction "i - j0" arbitrary: j0)
  case 0
  then have j0: "j0 = i" by simp
  have "getFromRing_loop k (Suc i) (Some v) (promote i st) = (Some v, promote i st)"
    using assms(3) by (subst getFromRing_loop.simps) (simp add: truthy_def)
  with assms(1,2) show ?case unfolding j0
    by (subst getFromRing_loop.simps) (simp add: truthy_def)
next
  case (Suc n)
  then have lt: "j0 < i" by simp
  with Suc.prems have nk: "\<not> holds_key k (gRing st ! j0)" by simp
  have "getFromRing_loop k (Suc j0) None st = (Some v, promote i st)"
    using Suc.hyps(2) Suc.prems lt by (intro Suc.hyps(1)) auto
  with lt assms(1) nk show ?case
    by (subst getFromRing_loop.simps)
      (auto simp: truthy_def holds_key_def split: option.splits)
qed

lemma filter_other_keys: "k \<notin> fst ` set xs \<Longrightarrow> filter (\<lambda>e. fst e \<noteq> k) xs = xs"
  by (induction xs) auto


lemma keys_around:
  "distinct (map fst (occupied (A @ Some (k, v) # D))) \<Longrightarrow>
   k \<notin> fst ` set (occupied A) \<and> k \<notin> fst ` set (occupied D)"
  by (auto simp: occupied_append)

lemma keys_middle:
  "k \<notin> fst ` set (occupied (B @ x # C)) \<longleftrightarrow>
   k \<notin> fst ` set (occupied B) \<and> \<not> holds_key k x \<and> k \<notin> fst ` set (occupied C)"
  by (cases x) (auto simp: occupied_append holds_key_def)

lemma occupied_single: "occupied [x] = (case x of None \<Rightarrow> [] | Some e \<Rightarrow> [e])"
  by (cases x) simp_all

lemma recency_hit:
  fixes R :: "slot list" and c :: nat
  defines "st \<equiv> \<lparr>gRing = R, gRingIndex = c\<rparr>"
  assumes i: "i < length R" and c: "c < length R" and h: "R ! i = Some (k, v)"
    and d: "distinct (map fst (occupied R))"
  shows "recency_order (promote i st) =
     filter (\<lambda>e. fst e \<noteq> k)
       (if holds_key k (R ! c) \<or> R ! c = None then recency_order st
        else tl (recency_order st)) @ [(k, v)]"
proof -
  consider (eq) "i = c" | (lt) "i < c" | (gt) "c < i" by linarith
  then show ?thesis
  proof cases
    case eq
    define A where "A = take c R"
    define C where "C = drop (Suc c) R"
    have "R = take c R @ R ! c # drop (Suc c) R" using c by (rule id_take_nth_drop)
    then have R: "R = A @ Some (k, v) # C" using h eq by (simp add: A_def C_def)
    have lA: "length A = c" using c by (simp add: A_def)
    from d have nk: "k \<notin> fst ` set (occupied A)" "k \<notin> fst ` set (occupied C)"
      unfolding R by (simp_all add: keys_around)
    have old: "recency_order st = (k, v) # occupied C @ occupied A"
      by (simp add: recency_order_def st_def R lA [symmetric] occupied_append)
    have new: "recency_order (promote i st) = occupied C @ occupied A @ [(k, v)]"
    proof (cases "C = []")
      case True
      then show ?thesis
        using promote_at [of st]
        by (simp add: eq recency_order_def st_def R lA [symmetric] occupied_append)
    next
      case False
      then have "Suc (length A) mod Suc (length A + length C) = Suc (length A)"
        by (cases C) simp_all
      then show ?thesis
        using promote_at [of st]
        by (simp add: eq recency_order_def st_def R lA [symmetric] occupied_append)
    qed
    have hk: "holds_key k (R ! c)" using h eq by (simp add: holds_key_def)
    show ?thesis using nk hk by (simp add: old new filter_other_keys)
  next
    case lt
    from split_two [OF lt c] obtain A B C where
      R: "R = A @ R ! i # B @ R ! c # C" and lA: "length A = i" and lB: "Suc (i + length B) = c"
      by blast
    define x where "x = R ! c"
    have R': "R = A @ Some (k, v) # B @ x # C" using R h by (simp add: x_def)
    have cc: "c = Suc (length A + length B)" using lA lB by simp
    from d have "k \<notin> fst ` set (occupied A)" "k \<notin> fst ` set (occupied (B @ x # C))"
      unfolding R' using keys_around [of A k v "B @ x # C"] by simp_all
    then have nk: "k \<notin> fst ` set (occupied A)" "k \<notin> fst ` set (occupied B)"
      "k \<notin> fst ` set (occupied C)" "\<not> holds_key k x"
      by (simp_all add: keys_middle)
    have old: "recency_order st = occupied [x] @ occupied C @ occupied A @ (k, v) # occupied B"
      unfolding recency_order_def st_def R' cc
      by (cases x) (simp_all add: occupied_append)
    have "promote i st = \<lparr>gRing = A @ B @ Some (k, v) # None # C, gRingIndex = c\<rparr>"
      unfolding st_def R' cc lA [symmetric] by (rule promote_before)
    then have new: "recency_order (promote i st)
        = occupied C @ occupied A @ occupied B @ [(k, v)]"
      unfolding recency_order_def cc by (simp add: occupied_append)
    have f: "filter (\<lambda>e. fst e \<noteq> k) (occupied C @ occupied A @ (k, v) # occupied B)
        = occupied C @ occupied A @ occupied B"
      using nk by (simp add: filter_other_keys)
    show ?thesis
    proof (cases x)
      case None
      with f show ?thesis using nk(4) by (simp add: old new x_def [symmetric])
    next
      case (Some e)
      with f show ?thesis using nk(4) by (simp add: old new x_def [symmetric])
    qed
  next
    case gt
    from split_two [OF gt i] obtain A B C where
      R: "R = A @ R ! c # B @ R ! i # C" and lA: "length A = c" and lB: "Suc (c + length B) = i"
      by blast
    define x where "x = R ! c"
    have R': "R = A @ x # B @ Some (k, v) # C" using R h by (simp add: x_def)
    have ii: "i = Suc (length A + length B)" using lA lB by simp
    have R'': "R = (A @ x # B) @ Some (k, v) # C" using R' by simp
    from d have "k \<notin> fst ` set (occupied (A @ x # B))" "k \<notin> fst ` set (occupied C)"
      using keys_around [of "A @ x # B" k v C] unfolding R'' by simp_all
    then have nk: "k \<notin> fst ` set (occupied A)" "k \<notin> fst ` set (occupied B)"
      "k \<notin> fst ` set (occupied C)" "\<not> holds_key k x"
      by (simp_all add: keys_middle)
    have old: "recency_order st = occupied [x] @ occupied B @ (k, v) # occupied C @ occupied A"
      unfolding recency_order_def st_def R' lA [symmetric]
      by (cases x) (simp_all add: occupied_append)
    have new: "recency_order (promote i st)
        = occupied B @ occupied C @ occupied A @ [(k, v)]"
    proof (cases "B @ C = []")
      case True
      then have "promote i st = \<lparr>gRing = None # A @ [Some (k, v)], gRingIndex = 0\<rparr>"
        unfolding st_def R' ii lA [symmetric] using promote_after_wrap [of A x "Some (k, v)"]
        by simp
      with True show ?thesis by (simp add: recency_order_def occupied_append)
    next
      case False
      then have "promote i st = \<lparr>gRing = A @ Some (k, v) # None # B @ C, gRingIndex = Suc (length A)\<rparr>"
        unfolding st_def R' ii lA [symmetric] by (rule promote_after)
      then show ?thesis by (simp add: recency_order_def occupied_append)
    qed
    have f: "filter (\<lambda>e. fst e \<noteq> k) (occupied B @ (k, v) # occupied C @ occupied A)
        = occupied B @ occupied C @ occupied A"
      using nk by (simp add: filter_other_keys)
    show ?thesis
    proof (cases x)
      case None
      with f show ?thesis using nk(4) by (simp add: old new x_def [symmetric])
    next
      case (Some e)
      with f show ?thesis using nk(4) by (simp add: old new x_def [symmetric])
    qed
  qed
qed


lemma recency_put:
  assumes "ring_inv st"
  shows "recency_order (addToRing k v st) =
     (if gRing st ! gRingIndex st = None then recency_order st else tl (recency_order st))
     @ [(k, v)]"
proof -
  define R where "R = gRing st"
  define c where "c = gRingIndex st"
  define A where "A = take c R"
  define C where "C = drop (Suc c) R"
  define x where "x = R ! c"
  from assms have L: "length R = RING_SIZE" and c: "c < length R"
    by (simp_all add: ring_inv_def R_def c_def)
  have "R = take c R @ R ! c # drop (Suc c) R" using c by (rule id_take_nth_drop)
  then have R: "R = A @ x # C" by (simp add: A_def C_def x_def)
  have lA: "length A = c" using c by (simp add: A_def)
  have S: "RING_SIZE = Suc (length A + length C)" using L R by simp
  have old: "recency_order st = occupied [x] @ occupied C @ occupied A"
    unfolding recency_order_def R_def [symmetric] c_def [symmetric]
    by (subst (1 2) R) (cases x; simp add: lA [symmetric] occupied_append)
  have new: "recency_order (addToRing k v st) = occupied C @ occupied A @ [(k, v)]"
  proof (cases "C = []")
    case True
    then show ?thesis
      unfolding recency_order_def addToRing_def R_def [symmetric] c_def [symmetric]
      by (subst (1 2) R) (simp add: S array_set_def lA [symmetric] occupied_append)
  next
    case False
    then have "Suc (length A) mod Suc (length A + length C) = Suc (length A)"
      by (cases C) simp_all
    then show ?thesis
      unfolding recency_order_def addToRing_def R_def [symmetric] c_def [symmetric]
      by (subst (1 2) R) (simp add: S array_set_def lA [symmetric] occupied_append)
  qed
  show ?thesis
    unfolding old new R_def [symmetric] c_def [symmetric] x_def [symmetric]
    by (cases x) simp_all
qed

lemma recency_head:
  assumes "gRingIndex st < length (gRing st)" "gRing st ! gRingIndex st = Some e"
  shows "recency_order st = e # tl (recency_order st)"
proof -
  from assms(1) have "drop (gRingIndex st) (gRing st)
      = gRing st ! gRingIndex st # drop (Suc (gRingIndex st)) (gRing st)"
    by (simp add: Cons_nth_drop_Suc)
  with assms(2) show ?thesis by (simp add: recency_order_def)
qed

lemma set_recency: "set (recency_order st) = {e. Some e \<in> set (gRing st)}"
proof -
  have "set (drop (gRingIndex st) (gRing st) @ take (gRingIndex st) (gRing st))
      = set (take (gRingIndex st) (gRing st) @ drop (gRingIndex st) (gRing st))"
    by (simp only: set_append Un_commute)
  then show ?thesis by (simp add: recency_order_def set_occupied del: set_append)
qed

lemma distinct_recency:
  "distinct (map fst (recency_order st)) \<longleftrightarrow> distinct (map fst (occupied (gRing st)))"
proof -
  have "occupied (gRing st)
      = occupied (take (gRingIndex st) (gRing st)) @ occupied (drop (gRingIndex st) (gRing st))"
    by (simp add: occupied_append [symmetric])
  then show ?thesis by (auto simp: recency_order_def occupied_append)
qed

lemma key_unique:
  assumes "distinct (map fst (occupied R))" "i < j" "j < length R"
    and "R ! i = Some (k, v)" "R ! j = Some (k, w)"
  shows False
proof -
  from split_two [OF assms(2,3)] obtain A B C where
    "R = A @ R ! i # B @ R ! j # C" by blast
  with assms(4,5) have "R = A @ Some (k, v) # B @ Some (k, w) # C" by simp
  then have "occupied R = occupied A @ (k, v) # occupied B @ (k, w) # occupied C"
    by (simp add: occupied_append)
  with assms(1) show False by simp
qed

lemma getFromRing_hit:
  assumes inv: "ring_inv st" and d: "distinct (map fst (recency_order st))"
    and kv: "(k, v) \<in> set (recency_order st)" and v: "v \<noteq> []"
  shows "\<exists>st'. getFromRing k st = (Some v, st') \<and>
     recency_order st' =
       filter (\<lambda>e. fst e \<noteq> k)
         (if holds_key k (gRing st ! gRingIndex st) \<or> gRing st ! gRingIndex st = None
          then recency_order st else tl (recency_order st)) @ [(k, v)]"
proof -
  from d have d': "distinct (map fst (occupied (gRing st)))" by (simp add: distinct_recency)
  from kv have "Some (k, v) \<in> set (gRing st)" by (simp add: set_recency)
  then obtain i where i: "i < length (gRing st)" "gRing st ! i = Some (k, v)"
    by (auto simp: in_set_conv_nth)
  have before: "\<forall>j. 0 \<le> j \<and> j < i \<longrightarrow> \<not> holds_key k (gRing st ! j)"
  proof (intro allI impI notI)
    fix j assume j: "0 \<le> j \<and> j < i" and "holds_key k (gRing st ! j)"
    then obtain w where "gRing st ! j = Some (k, w)"
      by (auto simp: holds_key_def split: option.splits)
    with key_unique [OF d' _ i(1) _ i(2), of j w] j show False by simp
  qed
  have g: "getFromRing k st = (Some v, promote i st)"
    unfolding getFromRing_def using i v before by (intro scan_hit) simp_all
  from inv have c: "gRingIndex st < length (gRing st)" by (simp add: ring_inv_def)
  have st: "\<lparr>gRing = gRing st, gRingIndex = gRingIndex st\<rparr> = st" by simp
  have "recency_order (promote i st) =
     filter (\<lambda>e. fst e \<noteq> k)
       (if holds_key k (gRing st ! gRingIndex st) \<or> gRing st ! gRingIndex st = None
        then recency_order st else tl (recency_order st)) @ [(k, v)]"
    using recency_hit [OF i(1) c i(2) d'] by (simp only: st)
  with g show ?thesis by simp
qed

lemma getFromRing_miss:
  assumes "k \<notin> fst ` set (recency_order st)"
  shows "getFromRing k st = (None, st)"
proof -
  have "\<forall>j. 0 \<le> j \<and> j < length (gRing st) \<longrightarrow> \<not> holds_key k (gRing st ! j)"
  proof (intro allI impI notI)
    fix j assume j: "0 \<le> j \<and> j < length (gRing st)" and "holds_key k (gRing st ! j)"
    then obtain w where "gRing st ! j = Some (k, w)"
      by (auto simp: holds_key_def split: option.splits)
    with j have "Some (k, w) \<in> set (gRing st)" by (metis nth_mem)
    then have "(k, w) \<in> set (recency_order st)" by (simp add: set_recency)
    with assms show False by force
  qed
  then show ?thesis unfolding getFromRing_def by (rule scan_miss)
qed

lemma evicted_not_retrievable:
  assumes inv: "ring_inv st" and d: "distinct (map fst (recency_order st))"
    and e: "gRing st ! gRingIndex st = Some (k0, v0)" and ne: "k \<noteq> k0"
  shows "getFromRing k0 (addToRing k v st) = (None, addToRing k v st)"
proof -
  from inv have c: "gRingIndex st < length (gRing st)" by (simp add: ring_inv_def)
  from recency_head [OF c e] have r: "recency_order st = (k0, v0) # tl (recency_order st)" .
  with d have "k0 \<notin> fst ` set (tl (recency_order st))"
    by (metis distinct.simps(2) fst_conv list.simps(9) set_map)
  moreover have "recency_order (addToRing k v st) = tl (recency_order st) @ [(k, v)]"
    using recency_put [OF inv, of k v] e by simp
  ultimately have "k0 \<notin> fst ` set (recency_order (addToRing k v st))" using ne by auto
  then show ?thesis by (rule getFromRing_miss)
qed


lemma distinct_keys_filter:
  "distinct (map fst xs) \<Longrightarrow> distinct (map fst (filter P xs))"
  by (induction xs) auto

lemma distinct_keys_tl: "distinct (map fst xs) \<Longrightarrow> distinct (map fst (tl xs))"
  by (cases xs) auto

lemma distinct_keys_promoted:
  assumes "distinct (map fst xs)"
  shows "distinct (map fst (filter (\<lambda>e. fst e \<noteq> k) xs @ [(k, v)]))"
proof -
  have "distinct (map fst (filter (\<lambda>e. fst e \<noteq> k) xs))"
    using assms by (rule distinct_keys_filter)
  moreover have "k \<notin> fst ` set (filter (\<lambda>e. fst e \<noteq> k) xs)" by auto
  ultimately show ?thesis by simp
qed

lemma evicted_first_tl:
  assumes "evicted_first b a xs" "distinct (map fst xs)"
  shows "evicted_first b a (tl xs)"
  unfolding evicted_first_def
proof
  assume b: "b \<in> fst ` set (tl xs)"
  then have ne: "xs \<noteq> []" by auto
  then have "b \<in> fst ` set xs" using b by (cases xs) auto
  with assms(1) obtain ys zs where x: "xs = ys @ zs" "b \<in> fst ` set ys" "a \<in> fst ` set zs"
    unfolding evicted_first_def by blast
  then obtain y ys' where ys: "ys = y # ys'" by (cases ys) auto
  have "fst y \<noteq> b"
  proof
    assume "fst y = b"
    with assms(2) x(1) ys have "b \<notin> fst ` set (ys' @ zs)" by auto
    with b x(1) ys show False by simp
  qed
  with x(2) ys have "b \<in> fst ` set ys'" by auto
  moreover have "tl xs = ys' @ zs" using x(1) ys by simp
  ultimately show "\<exists>ys zs. tl xs = ys @ zs \<and> b \<in> fst ` set ys \<and> a \<in> fst ` set zs"
    using x(3) by blast
qed

lemma evicted_first_promote:
  assumes "evicted_first b a xs" "k \<noteq> b"
  shows "evicted_first b a (filter (\<lambda>e. fst e \<noteq> k) xs @ [(k, w)])"
  unfolding evicted_first_def
proof
  assume "b \<in> fst ` set (filter (\<lambda>e. fst e \<noteq> k) xs @ [(k, w)])"
  with assms(2) have "b \<in> fst ` set xs" by auto
  with assms(1) obtain ys zs where x: "xs = ys @ zs" "b \<in> fst ` set ys" "a \<in> fst ` set zs"
    unfolding evicted_first_def by blast
  define ys' where "ys' = filter (\<lambda>e. fst e \<noteq> k) ys"
  define zs' where "zs' = filter (\<lambda>e. fst e \<noteq> k) zs @ [(k, w)]"
  have "filter (\<lambda>e. fst e \<noteq> k) xs @ [(k, w)] = ys' @ zs'"
    by (simp add: x(1) ys'_def zs'_def)
  moreover have "b \<in> fst ` set ys'" using x(2) assms(2) by (auto simp: ys'_def)
  moreover have "a \<in> fst ` set zs'" using x(3) by (cases "a = k") (auto simp: zs'_def)
  ultimately show "\<exists>ys zs. filter (\<lambda>e. fst e \<noteq> k) xs @ [(k, w)] = ys @ zs
      \<and> b \<in> fst ` set ys \<and> a \<in> fst ` set zs"
    by blast
qed

lemma evicted_first_last:
  assumes "b \<noteq> a"
  shows "evicted_first b a (xs @ [(a, w)])"
  unfolding evicted_first_def
proof
  assume "b \<in> fst ` set (xs @ [(a, w)])"
  with assms have "b \<in> fst ` set xs" by auto
  then show "\<exists>ys zs. xs @ [(a, w)] = ys @ zs \<and> b \<in> fst ` set ys \<and> a \<in> fst ` set zs"
    by (intro exI [of _ xs] exI [of _ "[(a, w)]"]) simp
qed


lemma occupied_replicate_None: "occupied (replicate n None) = []"
  by (induction n) simp_all

lemma list_all_tl: "list_all P xs \<Longrightarrow> list_all P (tl xs)"
  by (cases xs) simp_all

lemma ring_ok_hit:
  assumes ok: "ring_ok st" and kv: "(k, v) \<in> set (recency_order st)"
  shows "\<exists>st' xs. getFromRing k st = (Some v, st') \<and> v \<noteq> [] \<and> ring_ok st'
     \<and> recency_order st' = filter (\<lambda>e. fst e \<noteq> k) xs @ [(k, v)]
     \<and> (xs = recency_order st \<or> xs = tl (recency_order st))"
proof -
  from ok have inv: "ring_inv st" and d: "distinct (map fst (recency_order st))"
    and vals: "list_all (\<lambda>e. snd e \<noteq> []) (recency_order st)"
    by (simp_all add: ring_ok_def)
  from vals kv have v: "v \<noteq> []" by (auto simp: list_all_iff)
  define xs where "xs =
     (if holds_key k (gRing st ! gRingIndex st) \<or> gRing st ! gRingIndex st = None
      then recency_order st else tl (recency_order st))"
  from getFromRing_hit [OF inv d kv v] obtain st' where
    g: "getFromRing k st = (Some v, st')"
    and r: "recency_order st' = filter (\<lambda>e. fst e \<noteq> k) xs @ [(k, v)]"
    unfolding xs_def by blast
  have x: "xs = recency_order st \<or> xs = tl (recency_order st)" by (simp add: xs_def)
  have dx: "distinct (map fst xs)" using x d distinct_keys_tl [of "recency_order st"] by auto
  have vx: "list_all (\<lambda>e. snd e \<noteq> []) xs"
    using x vals list_all_tl [of _ "recency_order st"] by auto
  have "ring_inv (snd (getFromRing k st))"
    unfolding getFromRing_def using inv by (rule getFromRing_loop_inv)
  then have "ring_inv st'" using g by simp
  moreover have "distinct (map fst (recency_order st'))"
    unfolding r using dx by (rule distinct_keys_promoted)
  moreover have "list_all (\<lambda>e. snd e \<noteq> []) (recency_order st')"
    unfolding r using vx v by (simp add: list_all_iff)
  ultimately have "ring_ok st'" by (simp add: ring_ok_def)
  with g v r x show ?thesis by blast
qed

lemma ring_ok_put:
  assumes ok: "ring_ok st" and k: "k \<notin> fst ` set (recency_order st)" and v: "v \<noteq> []"
  shows "ring_ok (addToRing k v st) \<and>
     (\<exists>xs. recency_order (addToRing k v st) = filter (\<lambda>e. fst e \<noteq> k) xs @ [(k, v)]
        \<and> (xs = recency_order st \<or> xs = tl (recency_order st)))"
proof -
  from ok have inv: "ring_inv st" and d: "distinct (map fst (recency_order st))"
    and vals: "list_all (\<lambda>e. snd e \<noteq> []) (recency_order st)"
    by (simp_all add: ring_ok_def)
  define xs where "xs =
     (if gRing st ! gRingIndex st = None then recency_order st else tl (recency_order st))"
  have r: "recency_order (addToRing k v st) = xs @ [(k, v)]"
    unfolding xs_def using inv by (rule recency_put)
  have x: "xs = recency_order st \<or> xs = tl (recency_order st)" by (simp add: xs_def)
  have sub: "set xs \<subseteq> set (recency_order st)"
    using x by (cases "recency_order st") auto
  have dx: "distinct (map fst xs)" using x d distinct_keys_tl [of "recency_order st"] by auto
  have vx: "list_all (\<lambda>e. snd e \<noteq> []) xs"
    using x vals list_all_tl [of _ "recency_order st"] by auto
  have kx: "k \<notin> fst ` set xs" using k sub by auto
  then have f: "filter (\<lambda>e. fst e \<noteq> k) xs = xs" by (rule filter_other_keys)
  have "ring_inv (addToRing k v st)" using inv by (rule addToRing_inv)
  moreover have "distinct (map fst (recency_order (addToRing k v st)))"
    unfolding r using dx kx by simp
  moreover have "list_all (\<lambda>e. snd e \<noteq> []) (recency_order (addToRing k v st))"
    unfolding r using vx v by simp
  ultimately have "ring_ok (addToRing k v st)" by (simp add: ring_ok_def)
  moreover have "recency_order (addToRing k v st) = filter (\<lambda>e. fst e \<noteq> k) xs @ [(k, v)]"
    using r f by simp
  ultimately show ?thesis using x by blast
qed

lemma retrievable_iff:
  assumes "ring_ok st"
  shows "fst (getFromRing k st) \<noteq> None \<longleftrightarrow> k \<in> fst ` set (recency_order st)"
proof (cases "k \<in> fst ` set (recency_order st)")
  case True
  then obtain v where "(k, v) \<in> set (recency_order st)" by auto
  from ring_ok_hit [OF assms this] True show ?thesis by auto
next
  case False
  then show ?thesis by (simp add: getFromRing_miss)
qed

lemma request_step:
  assumes ok: "ring_ok st" and f: "fresh \<noteq> Some []"
  shows "ring_ok (snd (define_request q fresh st)) \<and>
     (recency_order (snd (define_request q fresh st)) = recency_order st \<or>
      (\<exists>w xs. recency_order (snd (define_request q fresh st))
           = filter (\<lambda>e. fst e \<noteq> q) xs @ [(q, w)]
         \<and> (xs = recency_order st \<or> xs = tl (recency_order st))))"
proof (cases "q \<in> fst ` set (recency_order st)")
  case True
  then obtain v where "(q, v) \<in> set (recency_order st)" by auto
  from ring_ok_hit [OF ok this] obtain st' xs where
    h: "getFromRing q st = (Some v, st')" "v \<noteq> []" "ring_ok st'"
      "recency_order st' = filter (\<lambda>e. fst e \<noteq> q) xs @ [(q, v)]"
      "xs = recency_order st \<or> xs = tl (recency_order st)"
    by blast
  then have "define_request q fresh st = (Some v, st')"
    by (simp add: define_request_def truthy_def)
  with h show ?thesis by auto
next
  case False
  then have m: "getFromRing q st = (None, st)" by (rule getFromRing_miss)
  show ?thesis
  proof (cases fresh)
    case None
    with m ok show ?thesis by (simp add: define_request_def truthy_def)
  next
    case (Some r')
    with f have "r' \<noteq> []" by simp
    from ring_ok_put [OF ok False this] m Some show ?thesis
      by (auto simp: define_request_def truthy_def)
  qed
qed

lemma request_keeps_order:
  assumes ok: "ring_ok st" and f: "fresh \<noteq> Some []" and q: "q \<noteq> b"
    and e: "evicted_first b a (recency_order st)"
  shows "evicted_first b a (recency_order (snd (define_request q fresh st)))"
proof -
  from ok have d: "distinct (map fst (recency_order st))" by (simp add: ring_ok_def)
  from request_step [OF ok f, of q] consider
    (same) "recency_order (snd (define_request q fresh st)) = recency_order st"
    | (moved) w xs where "recency_order (snd (define_request q fresh st))
           = filter (\<lambda>e. fst e \<noteq> q) xs @ [(q, w)]"
        "xs = recency_order st \<or> xs = tl (recency_order st)"
    by blast
  then show ?thesis
  proof cases
    case same
    with e show ?thesis by simp
  next
    case moved
    have "evicted_first b a xs" using moved(2) e evicted_first_tl [OF e d] by auto
    then show ?thesis unfolding moved(1) using q by (rule evicted_first_promote)
  qed
qed

lemma requests_keep_order:
  "ring_ok st \<Longrightarrow> \<forall>r\<in>set qs. fst r \<noteq> b \<and> snd r \<noteq> Some [] \<Longrightarrow>
   evicted_first b a (recency_order st) \<Longrightarrow>
   ring_ok (define_requests qs st) \<and> evicted_first b a (recency_order (define_requests qs st))"
proof (induction qs arbitrary: st)
  case Nil
  then show ?case by simp
next
  case (Cons r qs)
  obtain q fresh where r: "r = (q, fresh)" by (cases r)
  from Cons.prems(2) r have c: "q \<noteq> b" "fresh \<noteq> Some []" by simp_all
  have "ring_ok (snd (define_request q fresh st))"
    using request_step [OF Cons.prems(1) c(2)] by blast
  moreover have "\<forall>r\<in>set qs. fst r \<noteq> b \<and> snd r \<noteq> Some []" using Cons.prems(2) by simp
  moreover have "evicted_first b a (recency_order (snd (define_request q fresh st)))"
    using Cons.prems(1) c(2) c(1) Cons.prems(3) by (rule request_keeps_order)
  ultimately show ?case unfolding r by (simp add: Cons.IH)
qed

lemma touched_survives:
  assumes ok: "ring_ok st" and a: "(a, w) \<in> set (recency_order st)" and ne: "b \<noteq> a"
    and qs: "\<forall>r\<in>set qs. fst r \<noteq> b \<and> snd r \<noteq> Some []"
  shows "fst (getFromRing b (define_requests qs (snd (getFromRing a st)))) \<noteq> None
     \<longrightarrow> fst (getFromRing a (define_requests qs (snd (getFromRing a st)))) \<noteq> None
        \<and> evicted_first b a (recency_order (define_requests qs (snd (getFromRing a st))))"
proof -
  from ring_ok_hit [OF ok a] obtain st' xs where
    h: "getFromRing a st = (Some w, st')" "ring_ok st'"
      "recency_order st' = filter (\<lambda>e. fst e \<noteq> a) xs @ [(a, w)]"
    by blast
  have "evicted_first b a (recency_order st')" unfolding h(3) using ne by (rule evicted_first_last)
  from requests_keep_order [OF h(2) qs this]
  have fin: "ring_ok (define_requests qs st')"
    "evicted_first b a (recency_order (define_requests qs st'))"
    by simp_all
  have "a \<in> fst ` set (recency_order (define_requests qs st'))"
    if "b \<in> fst ` set (recency_order (define_requests qs st'))"
    using fin(2) that unfolding evicted_first_def by auto
  then have "fst (getFromRing b (define_requests qs st')) \<noteq> None
     \<longrightarrow> fst (getFromRing a (define_requests qs st')) \<noteq> None"
    unfolding retrievable_iff [OF fin(1)] by blast
  with fin(2) h(1) show ?thesis by simp
qed



lemma rotation_put:
  assumes "ring_inv st"
  shows "rotation (addToRing k v st) = tl (rotation st) @ [Some (k, v)]"
proof -
  define R where "R = gRing st"
  define c where "c = gRingIndex st"
  define A where "A = take c R"
  define C where "C = drop (Suc c) R"
  define x where "x = R ! c"
  from assms have L: "length R = RING_SIZE" and c: "c < length R"
    by (simp_all add: ring_inv_def R_def c_def)
  have "R = take c R @ R ! c # drop (Suc c) R" using c by (rule id_take_nth_drop)
  then have R: "R = A @ x # C" by (simp add: A_def C_def x_def)
  have lA: "length A = c" using c by (simp add: A_def)
  have S: "RING_SIZE = Suc (length A + length C)" using L R by simp
  have old: "rotation st = x # C @ A"
    unfolding rotation_def R_def [symmetric] c_def [symmetric]
    by (subst (1 2) R) (simp add: lA [symmetric])
  have new: "rotation (addToRing k v st) = C @ A @ [Some (k, v)]"
  proof (cases "C = []")
    case True
    then show ?thesis
      unfolding rotation_def addToRing_def R_def [symmetric] c_def [symmetric]
      by (subst (1 2) R) (simp add: S array_set_def lA [symmetric])
  next
    case False
    then have "Suc (length A) mod Suc (length A + length C) = Suc (length A)"
      by (cases C) simp_all
    then show ?thesis
      unfolding rotation_def addToRing_def R_def [symmetric] c_def [symmetric]
      by (subst (1 2) R) (simp add: S array_set_def lA [symmetric])
  qed
  show ?thesis by (simp add: old new)
qed

lemma length_rotation: "ring_inv st \<Longrightarrow> length (rotation st) = RING_SIZE"
  by (simp add: rotation_def ring_inv_def)

lemma set_rotation: "set (rotation st) = set (gRing st)"
proof -
  have "set (rotation st) = set (take (gRingIndex st) (gRing st) @ drop (gRingIndex st) (gRing st))"
    unfolding rotation_def by (simp only: set_append Un_commute)
  then show ?thesis by simp
qed

lemma rotation_addAll:
  "ring_inv st \<Longrightarrow>
   ring_inv (addAllToRing kvs st) \<and>
   rotation (addAllToRing kvs st) = drop (length kvs) (rotation st @ map Some kvs)"
proof (induction kvs arbitrary: st)
  case Nil
  then show ?case by (simp add: length_rotation)
next
  case (Cons kv kvs)
  obtain k v where kv: "kv = (k, v)" by (cases kv)
  have inv': "ring_inv (addToRing k v st)" using Cons.prems by (rule addToRing_inv)
  from Cons.prems have "rotation st \<noteq> []"
    using length_rotation [of st] by (auto simp: RING_SIZE_def)
  then obtain y ys where r: "rotation st = y # ys" by (cases "rotation st") auto
  have "rotation (addToRing k v st) = ys @ [Some (k, v)]"
    using rotation_put [OF Cons.prems, of k v] r by simp
  with Cons.IH [OF inv'] show ?case by (simp add: kv r)
qed

lemma flushed:
  assumes inv: "ring_inv st" and n: "RING_SIZE \<le> length kvs" and k: "k \<notin> fst ` set kvs"
  shows "getFromRing k (addAllToRing kvs st) = (None, addAllToRing kvs st)"
proof -
  have "rotation (addAllToRing kvs st) = drop (length kvs) (rotation st @ map Some kvs)"
    using rotation_addAll [OF inv] by blast
  also have "\<dots> = drop (length kvs - RING_SIZE) (map Some kvs)"
    using n length_rotation [OF inv] by simp
  finally have "set (rotation (addAllToRing kvs st)) \<subseteq> Some ` set kvs"
    using set_drop_subset [of "length kvs - RING_SIZE" "map Some kvs"] by simp
  then have "set (gRing (addAllToRing kvs st)) \<subseteq> Some ` set kvs" by (simp add: set_rotation)
  then have "set (recency_order (addAllToRing kvs st)) \<subseteq> set kvs"
    by (auto simp: set_recency)
  with k have "k \<notin> fst ` set (recency_order (addAllToRing kvs st))" by auto
  then show ?thesis by (rule getFromRing_miss)
qed

text \<open>
  C3 (as amended). In every state the request handler keeps the ring in (40 slots, cursor in
  range, no key twice, no empty value; the handler inserts a key only after \<open>getFromRing\<close>
  missed it), the occupied slots, read circularly from the cursor, are in recency order,
  least recently used first. \<open>addToRing\<close> appends the new entry as the most recently used one
  and, when it overwrites an occupied slot, removes exactly the least recently used entry,
  which is no longer retrievable afterwards; after 40 or more insertions of other keys no
  earlier key is retrievable. A \<open>getFromRing\<close> hit makes the hit entry the most recently used
  one and keeps the order of the others, and a touched key survives longer than an untouched
  key that was in the ring with it: through any later requests that do not touch the other
  key, whenever the other key is still retrievable the touched key is too, and stands after
  it in eviction order. But a hit at a slot other than the cursor's also discards the entry
  in the cursor slot, the least recently used one: the ring does not always hold the 40 most
  recently used keys. A miss leaves the ring unchanged.
\<close>

theorem ring_recency:
  "ring_ok init_ring \<and>
   (ring_ok st \<longrightarrow>
      recency_order (addToRing k v st) =
        (if gRing st ! gRingIndex st = None then recency_order st else tl (recency_order st))
        @ [(k, v)]
    \<and> (gRing st ! gRingIndex st = Some e \<longrightarrow> recency_order st = e # tl (recency_order st))
    \<and> (gRing st ! gRingIndex st = Some (k0, v0) \<and> k \<notin> fst ` set (recency_order st) \<longrightarrow>
          getFromRing k0 (addToRing k v st) = (None, addToRing k v st))
    \<and> ((k, v) \<in> set (recency_order st) \<longrightarrow>
          (\<exists>st'. getFromRing k st = (Some v, st') \<and>
             recency_order st' =
               filter (\<lambda>e. fst e \<noteq> k)
                 (if holds_key k (gRing st ! gRingIndex st) \<or> gRing st ! gRingIndex st = None
                  then recency_order st else tl (recency_order st)) @ [(k, v)]))
    \<and> (k \<notin> fst ` set (recency_order st) \<longrightarrow> getFromRing k st = (None, st))
    \<and> (RING_SIZE \<le> length kvs \<and> k \<notin> fst ` set kvs \<longrightarrow>
          getFromRing k (addAllToRing kvs st) = (None, addAllToRing kvs st))
    \<and> (fresh \<noteq> Some [] \<longrightarrow> ring_ok (snd (define_request k fresh st)))
    \<and> ((a, w) \<in> set (recency_order st) \<and> b \<noteq> a
        \<and> (\<forall>r\<in>set qs. fst r \<noteq> b \<and> snd r \<noteq> Some [])
        \<and> fst (getFromRing b (define_requests qs (snd (getFromRing a st)))) \<noteq> None \<longrightarrow>
          fst (getFromRing a (define_requests qs (snd (getFromRing a st)))) \<noteq> None
          \<and> evicted_first b a (recency_order (define_requests qs (snd (getFromRing a st))))))"
proof (intro conjI impI)
  have "recency_order init_ring = []"
    by (simp add: recency_order_def init_ring_def occupied_append occupied_replicate_None)
  then show "ring_ok init_ring" by (simp add: ring_ok_def init_ring_inv)
next
  assume ok: "ring_ok st"
  then have inv: "ring_inv st" and d: "distinct (map fst (recency_order st))"
    and vals: "list_all (\<lambda>e. snd e \<noteq> []) (recency_order st)"
    by (simp_all add: ring_ok_def)
  from inv have c: "gRingIndex st < length (gRing st)" by (simp add: ring_inv_def)
  show "recency_order (addToRing k v st) =
        (if gRing st ! gRingIndex st = None then recency_order st else tl (recency_order st))
        @ [(k, v)]"
    using inv by (rule recency_put)
  show "recency_order st = e # tl (recency_order st)" if "gRing st ! gRingIndex st = Some e"
    using c that by (rule recency_head)
  show "getFromRing k0 (addToRing k v st) = (None, addToRing k v st)"
    if h: "gRing st ! gRingIndex st = Some (k0, v0) \<and> k \<notin> fst ` set (recency_order st)"
  proof -
    from h have s: "gRing st ! gRingIndex st = Some (k0, v0)" by simp
    from recency_head [OF c s] have "(k0, v0) \<in> set (recency_order st)"
      by (metis list.set_intros(1))
    with h have "k \<noteq> k0" by force
    with inv d s show ?thesis by (rule evicted_not_retrievable)
  qed
  show "\<exists>st'. getFromRing k st = (Some v, st') \<and>
             recency_order st' =
               filter (\<lambda>e. fst e \<noteq> k)
                 (if holds_key k (gRing st ! gRingIndex st) \<or> gRing st ! gRingIndex st = None
                  then recency_order st else tl (recency_order st)) @ [(k, v)]"
    if kv: "(k, v) \<in> set (recency_order st)"
  proof -
    from vals kv have "v \<noteq> []" by (auto simp: list_all_iff)
    with inv d kv show ?thesis by (rule getFromRing_hit)
  qed
  show "getFromRing k st = (None, st)" if "k \<notin> fst ` set (recency_order st)"
    using that by (rule getFromRing_miss)
  show "getFromRing k (addAllToRing kvs st) = (None, addAllToRing kvs st)"
    if "RING_SIZE \<le> length kvs \<and> k \<notin> fst ` set kvs"
    using inv that by (intro flushed) simp_all
  show "ring_ok (snd (define_request k fresh st))" if "fresh \<noteq> Some []"
    using request_step [OF ok that] by blast
  assume g: "(a, w) \<in> set (recency_order st) \<and> b \<noteq> a
        \<and> (\<forall>r\<in>set qs. fst r \<noteq> b \<and> snd r \<noteq> Some [])
        \<and> fst (getFromRing b (define_requests qs (snd (getFromRing a st)))) \<noteq> None"
  then have t: "fst (getFromRing a (define_requests qs (snd (getFromRing a st)))) \<noteq> None
     \<and> evicted_first b a (recency_order (define_requests qs (snd (getFromRing a st))))"
    using touched_survives [OF ok, of a w b qs] by blast
  from t show "fst (getFromRing a (define_requests qs (snd (getFromRing a st)))) \<noteq> None" by simp
  from t show "evicted_first b a (recency_order (define_requests qs (snd (getFromRing a st))))"
    by simp
qed

lemma full_ring_facts:
  "ring_ok full_ring"
  "gRing full_ring ! gRingIndex full_ring = Some (ring_key 0, ''[]'')"
  "(ring_key 5, ''[]'') \<in> set (recency_order full_ring)"
  "ring_key 40 \<notin> fst ` set (recency_order full_ring)"
  "ring_key 7 \<noteq> ring_key 5"
  "RING_SIZE \<le> length forty_more"
  "ring_key 0 \<notin> fst ` set forty_more"
  "\<forall>r\<in>set later_requests. fst r \<noteq> ring_key 7 \<and> snd r \<noteq> Some []"
  "fst (getFromRing (ring_key 7)
     (define_requests later_requests (snd (getFromRing (ring_key 5) full_ring)))) \<noteq> None"
  by code_simp+

theorem ring_recency_witness:
  "ring_ok full_ring
   \<and> gRing full_ring ! gRingIndex full_ring = Some (ring_key 0, ''[]'')
   \<and> recency_order (addToRing (ring_key 40) ''[]'' full_ring)
       = tl (recency_order full_ring) @ [(ring_key 40, ''[]'')]
   \<and> getFromRing (ring_key 0) (addToRing (ring_key 40) ''[]'' full_ring)
       = (None, addToRing (ring_key 40) ''[]'' full_ring)
   \<and> fst (getFromRing (ring_key 5) full_ring) = Some ''[]''
   \<and> getFromRing (ring_key 40) full_ring = (None, full_ring)
   \<and> ring_ok (snd (define_request (ring_key 40) (Some ''[]'') full_ring))
   \<and> getFromRing (ring_key 0) (addAllToRing forty_more full_ring)
       = (None, addAllToRing forty_more full_ring)
   \<and> fst (getFromRing (ring_key 7)
        (define_requests later_requests (snd (getFromRing (ring_key 5) full_ring)))) \<noteq> None
   \<and> fst (getFromRing (ring_key 5)
        (define_requests later_requests (snd (getFromRing (ring_key 5) full_ring)))) \<noteq> None"
proof -
  note f = full_ring_facts
  have one: "recency_order (addToRing (ring_key 40) ''[]'' full_ring)
       = tl (recency_order full_ring) @ [(ring_key 40, ''[]'')]"
    "getFromRing (ring_key 0) (addToRing (ring_key 40) ''[]'' full_ring)
       = (None, addToRing (ring_key 40) ''[]'' full_ring)"
    "getFromRing (ring_key 40) full_ring = (None, full_ring)"
    "ring_ok (snd (define_request (ring_key 40) (Some ''[]'') full_ring))"
    using ring_recency [of full_ring "ring_key 40" "''[]''" "(ring_key 0, ''[]'')"
        "ring_key 0" "''[]''" _ "Some ''[]''"] f(1,2,4)
    by simp_all
  have flush: "getFromRing (ring_key 0) (addAllToRing forty_more full_ring)
       = (None, addAllToRing forty_more full_ring)"
    using ring_recency [of full_ring "ring_key 0" _ _ _ _ forty_more] f(1,6,7) by blast
  have "\<exists>st'. getFromRing (ring_key 5) full_ring = (Some ''[]'', st')"
    using ring_recency [of full_ring "ring_key 5" "''[]''"] f(1,3) by blast
  then have hit: "fst (getFromRing (ring_key 5) full_ring) = Some ''[]''" by auto
  have later: "fst (getFromRing (ring_key 5)
        (define_requests later_requests (snd (getFromRing (ring_key 5) full_ring)))) \<noteq> None"
    using ring_recency [of full_ring _ _ _ _ _ _ _ "ring_key 5" "''[]''" "ring_key 7"
        later_requests] f(1,3,5,8,9)
    by blast
  from f(1,2) one flush hit f(9) later show ?thesis by (intro conjI)
qed

text \<open>
  C3 as stated fails: after 40 distinct keys have been inserted and key 5 has been hit, key 0
  is a miss in the ring, while an LRU cache of capacity 40 still holds it.
\<close>

theorem ring_not_lru_counterexample:
  "fst (getFromRing (ring_key 0) (snd (getFromRing (ring_key 5) full_ring))) = None
   \<and> fst (lru_get (ring_key 0) (snd (lru_get (ring_key 5) full_lru))) = Some ''[]''"
  by code_simp

end
